theory Spec2Isabelle
  imports Complex_Main
begin

section \<open>The 8-puzzle STRIPS planner of strips.py\<close>

text \<open>
  A shallow embedding of the classes \<open>State\<close> and \<open>Strips\<close>.

  A position is the Python tuple \<open>(name, number, line, column)\<close>, a move the tuple
  \<open>("move", number, i, j, k, l)\<close>. The number of a move produced by
  \<open>get_possible_moves\<close> is whatever \<open>get_number\<close> returned, which is Python's \<open>None\<close>
  when no position sits on the cell: the number of a move is an \<open>int option\<close>.

  A Python set is modelled by the list of its elements in iteration order, without
  duplicates. The order is not fixed by Python; the theorems below hold for every order.
\<close>

type_synonym position = "string \<times> int \<times> int \<times> int"
type_synonym move = "string \<times> int option \<times> int \<times> int \<times> int \<times> int"
type_synonym state = "position list"

datatype error = TypeError | KeyError | IndexError

subsection \<open>Python sets as duplicate-free lists\<close>

definition set_add :: "'a list \<Rightarrow> 'a \<Rightarrow> 'a list" where
  "set_add S el = (if el \<in> set S then S else S @ [el])"

definition set_remove :: "'a list \<Rightarrow> 'a \<Rightarrow> error + 'a list" where
  "set_remove S el = (if el \<in> set S then Inr (remove1 el S) else Inl KeyError)"

definition intersection :: "'a list \<Rightarrow> 'a list \<Rightarrow> 'a list" where
  "intersection A B = filter (\<lambda>x. x \<in> set B) A"

subsection \<open>class State\<close>

fun get_clear :: "state \<Rightarrow> (int \<times> int) option" where
  "get_clear [] = None"
| "get_clear ((name, n, i, j) # ss) =
     (if name = ''clear'' then Some (i, j) else get_clear ss)"

fun get_number :: "state \<Rightarrow> int \<Rightarrow> int \<Rightarrow> int option" where
  "get_number [] i j = None"
| "get_number ((name, n, si, sj) # ss) i j =
     (if si = i \<and> sj = j then Some n else get_number ss i j)"

definition get_possible_moves :: "state \<Rightarrow> error + move list" where
  "get_possible_moves S =
     (case get_clear S of
        None \<Rightarrow> Inl TypeError
      | Some (ci, cj) \<Rightarrow>
          (let possible_moves = [];
               possible_moves =
                 (if ci - 1 > 0
                  then set_add possible_moves (''move'', get_number S (ci - 1) cj, ci, cj, ci - 1, cj)
                  else possible_moves);
               possible_moves =
                 (if ci + 1 < 4
                  then set_add possible_moves (''move'', get_number S (ci + 1) cj, ci, cj, ci + 1, cj)
                  else possible_moves);
               possible_moves =
                 (if cj - 1 > 0
                  then set_add possible_moves (''move'', get_number S ci (cj - 1), ci, cj, ci, cj - 1)
                  else possible_moves);
               possible_moves =
                 (if cj + 1 < 4
                  then set_add possible_moves (''move'', get_number S ci (cj + 1), ci, cj, ci, cj + 1)
                  else possible_moves)
           in Inr possible_moves))"

subsection \<open>class Strips: construction\<close>

record operator =
  preconditions :: "position list"
  add :: "position list"
  remove :: "position list"

record strips =
  initial_state :: state
  max_elaps_time :: real
  operators :: "move \<rightharpoonup> operator"
  goal_state :: state
  current_state :: state

definition cell_operators :: "int \<Rightarrow> int \<Rightarrow> int \<Rightarrow> (string \<times> int \<times> int \<times> int \<times> int \<times> int) list" where
  "cell_operators x i j =
     (if i - 1 > 0 then [(''move'', x, i, j, i - 1, j)] else []) @
     (if i + 1 < 4 then [(''move'', x, i, j, i + 1, j)] else []) @
     (if j - 1 > 0 then [(''move'', x, i, j, i, j - 1)] else []) @
     (if j + 1 < 4 then [(''move'', x, i, j, i, j + 1)] else [])"

definition possible_operators :: "(string \<times> int \<times> int \<times> int \<times> int \<times> int) list" where
  "possible_operators =
     concat (map (\<lambda>x. concat (map (\<lambda>i. concat (map (\<lambda>j. cell_operators x i j) [1..3])) [1..3])) [1..8])"

definition operator_key :: "(string \<times> int \<times> int \<times> int \<times> int \<times> int) \<Rightarrow> move" where
  "operator_key = (\<lambda>(name, x, i, j, k, l). (''move'', Some x, i, j, k, l))"

definition operator_of :: "int \<Rightarrow> int \<Rightarrow> int \<Rightarrow> int \<Rightarrow> int \<Rightarrow> operator" where
  "operator_of x i j k l =
     \<lparr>preconditions = [(''on'', x, i, j), (''clear'', 0, k, l)],
      add = [(''on'', x, k, l), (''clear'', 0, i, j)],
      remove = [(''on'', x, i, j), (''clear'', 0, k, l)]\<rparr>"

definition operator_entry :: "(string \<times> int \<times> int \<times> int \<times> int \<times> int) \<Rightarrow> operator" where
  "operator_entry = (\<lambda>(name, x, i, j, k, l). operator_of x i j k l)"

definition operators_table :: "move \<rightharpoonup> operator" where
  "operators_table =
     fold (\<lambda>move ops. ops(operator_key move \<mapsto> operator_entry move))
          possible_operators Map.empty"

definition the_goal :: state where
  "the_goal = [(''on'', 1, 1, 1), (''on'', 2, 1, 2), (''on'', 3, 1, 3),
               (''on'', 8, 2, 1), (''clear'', 0, 2, 2), (''on'', 4, 2, 3),
               (''on'', 7, 3, 1), (''on'', 6, 3, 2), (''on'', 5, 3, 3)]"

definition Strips_init :: "state \<Rightarrow> real \<Rightarrow> strips" where
  "Strips_init initial max_time =
     \<lparr>initial_state = initial,
      max_elaps_time = max_time,
      operators = operators_table,
      goal_state = the_goal,
      current_state = the_goal\<rparr>"

subsection \<open>update_current_state\<close>

definition touches :: "position \<Rightarrow> move \<Rightarrow> bool" where
  "touches s m =
     (case s of (name, n, si, sj) \<Rightarrow>
      case m of (tag, x, i, j, k, l) \<Rightarrow> (si = i \<and> sj = j) \<or> (si = k \<and> sj = l))"

fun remove_loop :: "move \<Rightarrow> position list \<Rightarrow> state \<Rightarrow> error + state" where
  "remove_loop m [] U = Inr U"
| "remove_loop m (s # ss) U =
     (if touches s m
      then (case set_remove U s of Inl e \<Rightarrow> Inl e | Inr U' \<Rightarrow> remove_loop m ss U')
      else remove_loop m ss U)"

definition update_current_state :: "strips \<Rightarrow> move \<Rightarrow> error + state" where
  "update_current_state p m =
     (case remove_loop m (current_state p) (current_state p) of
        Inl e \<Rightarrow> Inl e
      | Inr U \<Rightarrow>
          (case operators p m of
             None \<Rightarrow> Inl KeyError
           | Some op \<Rightarrow> Inr (fold (\<lambda>pc U. set_add U pc) (preconditions op) U)))"

subsection \<open>pick_move\<close>

definition move_pts :: "strips \<Rightarrow> move \<Rightarrow> error + int" where
  "move_pts p m =
     (case operators p m of
        None \<Rightarrow> Inl KeyError
      | Some op \<Rightarrow> Inr (int (length (intersection (preconditions op) (initial_state p)))))"

fun pick_loop :: "strips \<Rightarrow> move list \<Rightarrow> move list \<times> int \<Rightarrow> error + (move list \<times> int)" where
  "pick_loop p [] (winner, winner_points) = Inr (winner, winner_points)"
| "pick_loop p (m # ms) (winner, winner_points) =
     (case move_pts p m of
        Inl e \<Rightarrow> Inl e
      | Inr pts \<Rightarrow>
          if pts > winner_points then pick_loop p ms (set_add [] m, pts)
          else if pts = winner_points then pick_loop p ms (set_add winner m, winner_points)
          else pick_loop p ms (winner, winner_points))"

definition choice :: "'a list \<Rightarrow> nat \<Rightarrow> error + 'a" where
  "choice xs r = (if xs = [] then Inl IndexError else Inr (xs ! (r mod length xs)))"

definition pick_move :: "strips \<Rightarrow> move list \<Rightarrow> nat \<Rightarrow> error + move" where
  "pick_move p possible_moves r =
     (case pick_loop p possible_moves ([], - 1) of
        Inl e \<Rightarrow> Inl e
      | Inr (winner, winner_points) \<Rightarrow> choice winner r)"

subsection \<open>run\<close>

text \<open>
  The clock is the sequence of the readings of \<open>time()\<close>: reading 0 is \<open>tic\<close>, reading
  \<open>k + 1\<close> is the \<open>tac\<close> of iteration \<open>k\<close>. The random source gives the draw of
  iteration \<open>k\<close>. The loop need not end, so it is a partial function; an exception of
  the Python code is the value \<open>Inl\<close>. Printing is not modelled.
\<close>

partial_function (option) run_loop ::
  "(nat \<Rightarrow> real) \<Rightarrow> (nat \<Rightarrow> nat) \<Rightarrow> real \<Rightarrow> nat \<Rightarrow> strips \<Rightarrow> move list
     \<Rightarrow> (error + (bool \<times> move list \<times> strips)) option" where
  "run_loop clock rnd tic k p performed_operations =
     (if int (length (intersection (current_state p) (initial_state p))) < 9 then
        (case get_possible_moves (current_state p) of
           Inl e \<Rightarrow> Some (Inl e)
         | Inr possible_moves \<Rightarrow>
             (case pick_move p possible_moves (rnd k) of
                Inl e \<Rightarrow> Some (Inl e)
              | Inr chosen_move \<Rightarrow>
                  (case update_current_state p chosen_move of
                     Inl e \<Rightarrow> Some (Inl e)
                   | Inr cs \<Rightarrow>
                       (if clock (Suc k) - tic > max_elaps_time p
                        then Some (Inr (False, performed_operations @ [chosen_move],
                                        p\<lparr>current_state := cs\<rparr>))
                        else run_loop clock rnd tic (Suc k) (p\<lparr>current_state := cs\<rparr>)
                               (performed_operations @ [chosen_move])))))
      else Some (Inr (True, rev performed_operations, p)))"

declare run_loop.simps [code]

definition run :: "strips \<Rightarrow> (nat \<Rightarrow> real) \<Rightarrow> (nat \<Rightarrow> nat)
     \<Rightarrow> (error + (bool \<times> move list \<times> strips)) option" where
  "run p clock rnd = run_loop clock rnd (clock 0) 0 p []"

subsection \<open>Notions of the specification\<close>

text \<open>
  The four tests of \<open>get_possible_moves\<close> and of the operator construction: cell
  \<open>(k, l)\<close> is the upper, lower, left or right neighbour of \<open>(i, j)\<close> and passes the
  bound test made for that direction.
\<close>

definition adjacent :: "int \<Rightarrow> int \<Rightarrow> int \<Rightarrow> int \<Rightarrow> bool" where
  "adjacent i j k l \<longleftrightarrow>
     (k = i - 1 \<and> l = j \<and> i - 1 > 0) \<or> (k = i + 1 \<and> l = j \<and> i + 1 < 4) \<or>
     (k = i \<and> l = j - 1 \<and> j - 1 > 0) \<or> (k = i \<and> l = j + 1 \<and> j + 1 < 4)"

text \<open>
  A fact of the data model: \<open>On(tile, row, col)\<close> with a tile in 1..8, or
  \<open>Clear(row, col)\<close> with the sentinel 0, on a cell of the 3x3 grid.
\<close>

definition valid_fact :: "position \<Rightarrow> bool" where
  "valid_fact s =
     (case s of (name, n, i, j) \<Rightarrow>
        ((name = ''on'' \<and> 1 \<le> n \<and> n \<le> 8) \<or> (name = ''clear'' \<and> n = 0)) \<and>
        1 \<le> i \<and> i \<le> 3 \<and> 1 \<le> j \<and> j \<le> 3)"

definition grid_cells :: "(int \<times> int) list" where
  "grid_cells = [(1, 1), (1, 2), (1, 3), (2, 1), (2, 2), (2, 3), (3, 1), (3, 2), (3, 3)]"

definition tile_ids :: "int list" where
  "tile_ids = [1, 2, 3, 4, 5, 6, 7, 8]"

text \<open>
  A well-formed board state: nine facts, one \<open>Clear\<close>, eight \<open>On\<close>, every tile 1..8 in
  exactly one \<open>On\<close> fact, every cell of the grid in exactly one fact.
\<close>

definition well_formed :: "state \<Rightarrow> bool" where
  "well_formed S \<longleftrightarrow>
     distinct S \<and> length S = 9 \<and> list_all valid_fact S \<and>
     length (filter (\<lambda>s. fst s = ''clear'') S) = 1 \<and>
     length (filter (\<lambda>s. fst s = ''on'') S) = 8 \<and>
     (\<forall>x \<in> set tile_ids. length (filter (\<lambda>s. fst s = ''on'' \<and> fst (snd s) = x) S) = 1) \<and>
     (\<forall>c \<in> set grid_cells. length (filter (\<lambda>s. snd (snd s) = c) S) = 1)"

text \<open>
  Forward application of a move to a set of facts, by the operator table: the
  preconditions must hold, the \<open>remove\<close> facts are deleted and the \<open>add\<close> facts added.
\<close>

definition apply_move :: "(move \<rightharpoonup> operator) \<Rightarrow> position set \<Rightarrow> move \<Rightarrow> position set option" where
  "apply_move ops F m =
     (case ops m of
        None \<Rightarrow> None
      | Some op \<Rightarrow>
          if set (preconditions op) \<subseteq> F
          then Some ((F - set (remove op)) \<union> set (add op))
          else None)"

fun apply_plan :: "(move \<rightharpoonup> operator) \<Rightarrow> position set \<Rightarrow> move list \<Rightarrow> position set option" where
  "apply_plan ops F [] = Some F"
| "apply_plan ops F (m # ms) =
     (case apply_move ops F m of None \<Rightarrow> None | Some F' \<Rightarrow> apply_plan ops F' ms)"

text \<open>The regression steps of a list of moves, applied in order to the current state.\<close>

fun regress_moves :: "strips \<Rightarrow> move list \<Rightarrow> error + strips" where
  "regress_moves p [] = Inr p"
| "regress_moves p (m # ms) =
     (case update_current_state p m of
        Inl e \<Rightarrow> Inl e
      | Inr cs \<Rightarrow> regress_moves (p\<lparr>current_state := cs\<rparr>) ms)"

text \<open>The board \<open>1 2 3 / 8 4 _ / 7 6 5\<close>, one move away from the goal.\<close>

definition one_away :: state where
  "one_away = [(''on'', 1, 1, 1), (''on'', 2, 1, 2), (''on'', 3, 1, 3),
               (''on'', 8, 2, 1), (''on'', 4, 2, 2), (''clear'', 0, 2, 3),
               (''on'', 7, 3, 1), (''on'', 6, 3, 2), (''on'', 5, 3, 3)]"

section \<open>The operator table\<close>

lemma in_grid_cells: "(i, j) \<in> set grid_cells \<longleftrightarrow> 1 \<le> i \<and> i \<le> 3 \<and> 1 \<le> j \<and> j \<le> 3"
  unfolding grid_cells_def by (simp; presburger)

lemma in_tile_ids: "x \<in> set tile_ids \<longleftrightarrow> 1 \<le> x \<and> x \<le> 8"
  unfolding tile_ids_def by (simp; presburger)

lemma fold_upd_other:
  "k \<notin> set (map kf xs) \<Longrightarrow> fold (\<lambda>m ops. ops(kf m \<mapsto> vf m)) xs M k = M k"
  by (induction xs arbitrary: M) auto

lemma fold_upd_in:
  "k \<in> set (map kf xs) \<Longrightarrow> (\<And>m. m \<in> set xs \<Longrightarrow> vf m = g (kf m)) \<Longrightarrow>
   fold (\<lambda>m ops. ops(kf m \<mapsto> vf m)) xs M k = Some (g k)"
proof (induction xs arbitrary: M)
  case Nil then show ?case by simp
next
  case (Cons a xs)
  show ?case
  proof (cases "k \<in> set (map kf xs)")
    case True
    have "fold (\<lambda>m ops. ops(kf m \<mapsto> vf m)) xs (M(kf a \<mapsto> vf a)) k = Some (g k)"
      by (rule Cons.IH[OF True]) (simp add: Cons.prems(2))
    then show ?thesis by (simp del: fun_upd_apply)
  next
    case False
    then have ka: "k = kf a" using Cons.prems(1) by auto
    have "fold (\<lambda>m ops. ops(kf m \<mapsto> vf m)) xs (M(kf a \<mapsto> vf a)) k = (M(kf a \<mapsto> vf a)) k"
      by (rule fold_upd_other[OF False])
    then show ?thesis using ka Cons.prems(2)[of a] by (simp del: fun_upd_apply) simp
  qed
qed

lemma in_cell_operators:
  "(tag, x', i', j', k, l) \<in> set (cell_operators x i j) \<longleftrightarrow>
     tag = ''move'' \<and> x' = x \<and> i' = i \<and> j' = j \<and> adjacent i j k l"
  by (auto simp: cell_operators_def adjacent_def)

lemma in_possible_operators:
  "(tag, x, i, j, k, l) \<in> set possible_operators \<longleftrightarrow>
     tag = ''move'' \<and> 1 \<le> x \<and> x \<le> 8 \<and> 1 \<le> i \<and> i \<le> 3 \<and> 1 \<le> j \<and> j \<le> 3 \<and> adjacent i j k l"
  by (auto simp: possible_operators_def in_cell_operators)

lemma operators_table_Some:
  assumes "1 \<le> x" "x \<le> 8" "1 \<le> i" "i \<le> 3" "1 \<le> j" "j \<le> 3" "adjacent i j k l"
  shows "operators_table (''move'', Some x, i, j, k, l) = Some (operator_of x i j k l)"
proof -
  have mem: "(''move'', x, i, j, k, l) \<in> set possible_operators"
    using assms by (simp add: in_possible_operators)
  have "(''move'', Some x, i, j, k, l) \<in> set (map operator_key possible_operators)"
    using mem by (force simp: operator_key_def)
  then have "fold (\<lambda>m ops. ops(operator_key m \<mapsto> operator_entry m)) possible_operators Map.empty (''move'', Some x, i, j, k, l)
      = Some ((\<lambda>(tag, t, i, j, k, l). operator_of (the t) i j k l) (''move'', Some x, i, j, k, l))"
    by (rule fold_upd_in) (auto simp: operator_key_def operator_entry_def)
  then show ?thesis by (simp add: operators_table_def)
qed

lemma operators_table_dom:
  assumes "operators_table m = Some op"
  shows "\<exists>x i j k l. m = (''move'', Some x, i, j, k, l) \<and> op = operator_of x i j k l \<and>
      1 \<le> x \<and> x \<le> 8 \<and> 1 \<le> i \<and> i \<le> 3 \<and> 1 \<le> j \<and> j \<le> 3 \<and> adjacent i j k l"
proof -
  have "m \<in> set (map operator_key possible_operators)"
  proof (rule ccontr)
    assume "m \<notin> set (map operator_key possible_operators)"
    then have "operators_table m = None"
      unfolding operators_table_def by (simp add: fold_upd_other)
    with assms show False by simp
  qed
  then obtain x i j k l where m: "m = (''move'', Some x, i, j, k, l)"
    and mem: "(''move'', x, i, j, k, l) \<in> set possible_operators"
    by (auto simp: operator_key_def in_possible_operators)
  have b: "1 \<le> x \<and> x \<le> 8 \<and> 1 \<le> i \<and> i \<le> 3 \<and> 1 \<le> j \<and> j \<le> 3 \<and> adjacent i j k l"
    using mem by (simp add: in_possible_operators)
  then have "operators_table m = Some (operator_of x i j k l)"
    unfolding m by (intro operators_table_Some) auto
  with assms b m show ?thesis by auto
qed

section \<open>Sets as lists, the regression step, counting\<close>

lemma set_set_add: "set (set_add S x) = insert x (set S)"
  by (auto simp: set_add_def)

lemma distinct_set_add: "distinct S \<Longrightarrow> distinct (set_add S x)"
  by (simp add: set_add_def)

lemma set_add_new: "x \<notin> set S \<Longrightarrow> set_add S x = S @ [x]"
  by (simp add: set_add_def)

lemma remove_loop_filter:
  "distinct xs \<Longrightarrow> distinct U \<Longrightarrow> set xs \<subseteq> set U \<Longrightarrow>
   remove_loop m xs U = Inr (filter (\<lambda>s. \<not> (s \<in> set xs \<and> touches s m)) U)"
proof (induction xs arbitrary: U)
  case Nil
  then show ?case by simp
next
  case (Cons a xs)
  show ?case
  proof (cases "touches a m")
    case False
    have "remove_loop m xs U = Inr (filter (\<lambda>s. \<not> (s \<in> set xs \<and> touches s m)) U)"
      using Cons.prems by (intro Cons.IH) auto
    moreover have "filter (\<lambda>s. \<not> (s \<in> set xs \<and> touches s m)) U
        = filter (\<lambda>s. \<not> (s \<in> set (a # xs) \<and> touches s m)) U"
      using False by (intro filter_cong) auto
    ultimately show ?thesis using False by simp
  next
    case True
    let ?U = "remove1 a U"
    have aU: "a \<in> set U" using Cons.prems by simp
    have U': "?U = filter (\<lambda>s. s \<noteq> a) U"
      using Cons.prems(2) by (simp add: distinct_remove1_removeAll removeAll_filter_not_eq) (metis)
    have "remove_loop m xs ?U = Inr (filter (\<lambda>s. \<not> (s \<in> set xs \<and> touches s m)) ?U)"
      using Cons.prems by (intro Cons.IH) auto
    moreover have "filter (\<lambda>s. \<not> (s \<in> set xs \<and> touches s m)) ?U
        = filter (\<lambda>s. \<not> (s \<in> set (a # xs) \<and> touches s m)) U"
      unfolding U' filter_filter using True by (intro filter_cong) auto
    ultimately show ?thesis using True aU by (simp add: set_remove_def)
  qed
qed

lemma remove_loop_self:
  "distinct S \<Longrightarrow> remove_loop m S S = Inr (filter (\<lambda>s. \<not> touches s m) S)"
proof -
  assume d: "distinct S"
  have "filter (\<lambda>s. \<not> (s \<in> set S \<and> touches s m)) S = filter (\<lambda>s. \<not> touches s m) S"
    by (intro filter_cong) auto
  then show ?thesis using remove_loop_filter[OF d d, of m] by simp
qed

lemma update_current_state_eq:
  assumes "distinct (current_state p)" "operators p m = Some op"
  shows "update_current_state p m =
           Inr (fold (\<lambda>pc U. set_add U pc) (preconditions op)
                  (filter (\<lambda>s. \<not> touches s m) (current_state p)))"
  using assms by (simp add: update_current_state_def remove_loop_self)

lemma set_fold_set_add: "set (fold (\<lambda>pc U. set_add U pc) ps U) = set U \<union> set ps"
  by (induction ps arbitrary: U) (auto simp: set_set_add)

lemma distinct_fold_set_add: "distinct U \<Longrightarrow> distinct (fold (\<lambda>pc U. set_add U pc) ps U)"
  by (induction ps arbitrary: U) (auto simp: distinct_set_add)

lemma filter_single:
  assumes "length (filter R S) = 1" "a \<in> set S" "R a"
  shows "filter R S = [a]"
proof -
  obtain b where b: "filter R S = [b]"
    using assms(1) by (cases "filter R S") auto
  have "a \<in> set (filter R S)" using assms by simp
  then show ?thesis using b by simp
qed

lemma length_filter_split:
  "length (filter P S) = length (filter (\<lambda>s. \<not> T s \<and> P s) S) + length (filter (\<lambda>s. T s \<and> P s) S)"
  by (induction S) auto

lemma length_filter_disj:
  "(\<And>s. \<not> (Q1 s \<and> Q2 s)) \<Longrightarrow>
   length (filter (\<lambda>s. (Q1 s \<or> Q2 s) \<and> P s) S) =
     length (filter P (filter Q1 S)) + length (filter P (filter Q2 S))"
  by (induction S) auto

lemma get_clear_Some: "get_clear S = Some (i, j) \<Longrightarrow> \<exists>n. (''clear'', n, i, j) \<in> set S"
  by (induction S rule: get_clear.induct) (auto split: if_splits)

lemma get_clear_None: "get_clear S = None \<Longrightarrow> filter (\<lambda>s. fst s = ''clear'') S = []"
  by (induction S rule: get_clear.induct) (auto split: if_splits)

lemma get_number_Some: "get_number S i j = Some n \<Longrightarrow> \<exists>name. (name, n, i, j) \<in> set S"
  by (induction S i j rule: get_number.induct) (auto split: if_splits)

lemma get_number_None: "get_number S i j = None \<Longrightarrow> filter (\<lambda>s. snd (snd s) = (i, j)) S = []"
  by (induction S i j rule: get_number.induct) (auto split: if_splits)

section \<open>Well-formed board states\<close>

lemma wf_clear:
  assumes "well_formed S"
  shows "\<exists>ci cj. get_clear S = Some (ci, cj) \<and> (''clear'', 0, ci, cj) \<in> set S \<and>
           1 \<le> ci \<and> ci \<le> 3 \<and> 1 \<le> cj \<and> cj \<le> 3"
proof -
  have c1: "length (filter (\<lambda>s. fst s = ''clear'') S) = 1"
    using assms by (simp add: well_formed_def)
  have "get_clear S \<noteq> None"
  proof
    assume "get_clear S = None"
    then have "filter (\<lambda>s. fst s = ''clear'') S = []" by (rule get_clear_None)
    with c1 show False by simp
  qed
  then obtain ci cj where g: "get_clear S = Some (ci, cj)" by auto
  then obtain n where mem: "(''clear'', n, ci, cj) \<in> set S"
    using get_clear_Some by blast
  have "valid_fact (''clear'', n, ci, cj)"
    using assms mem by (auto simp: well_formed_def list_all_iff)
  then show ?thesis using g mem by (auto simp: valid_fact_def)
qed

lemma wf_cell_fact:
  assumes "well_formed S" "1 \<le> i" "i \<le> 3" "1 \<le> j" "j \<le> 3"
  shows "\<exists>name n. get_number S i j = Some n \<and>
           filter (\<lambda>s. snd (snd s) = (i, j)) S = [(name, n, i, j)]"
proof -
  have c1: "length (filter (\<lambda>s. snd (snd s) = (i, j)) S) = 1"
    using assms by (simp add: well_formed_def in_grid_cells)
  have "get_number S i j \<noteq> None"
  proof
    assume "get_number S i j = None"
    then have "filter (\<lambda>s. snd (snd s) = (i, j)) S = []" by (rule get_number_None)
    with c1 show False by simp
  qed
  then obtain n where g: "get_number S i j = Some n" by auto
  then obtain name where mem: "(name, n, i, j) \<in> set S"
    using get_number_Some by blast
  have "filter (\<lambda>s. snd (snd s) = (i, j)) S = [(name, n, i, j)]"
    using c1 mem by (rule filter_single) simp
  then show ?thesis using g by blast
qed

lemma wf_clear_unique:
  assumes "well_formed S" "(''clear'', n, i, j) \<in> set S" "(''clear'', n', i', j') \<in> set S"
  shows "n' = n \<and> i' = i \<and> j' = j"
proof -
  have c1: "length (filter (\<lambda>s. fst s = ''clear'') S) = 1"
    using assms by (simp add: well_formed_def)
  have "filter (\<lambda>s. fst s = ''clear'') S = [(''clear'', n, i, j)]"
    using c1 assms(2) by (rule filter_single) simp
  moreover have "filter (\<lambda>s. fst s = ''clear'') S = [(''clear'', n', i', j')]"
    using c1 assms(3) by (rule filter_single) simp
  ultimately show ?thesis by simp
qed

lemma wf_clear_cell:
  assumes "well_formed S" "get_clear S = Some (ci, cj)"
  shows "filter (\<lambda>s. snd (snd s) = (ci, cj)) S = [(''clear'', 0, ci, cj)] \<and>
         1 \<le> ci \<and> ci \<le> 3 \<and> 1 \<le> cj \<and> cj \<le> 3"
proof -
  have mem: "(''clear'', 0, ci, cj) \<in> set S" and b: "1 \<le> ci \<and> ci \<le> 3 \<and> 1 \<le> cj \<and> cj \<le> 3"
    using wf_clear[OF assms(1)] assms(2) by auto
  have c1: "length (filter (\<lambda>s. snd (snd s) = (ci, cj)) S) = 1"
    using assms(1) b by (simp add: well_formed_def in_grid_cells)
  have "filter (\<lambda>s. snd (snd s) = (ci, cj)) S = [(''clear'', 0, ci, cj)]"
    using c1 mem by (rule filter_single) simp
  then show ?thesis using b by simp
qed

lemma wf_tile_cell:
  assumes "well_formed S" "get_clear S = Some (ci, cj)"
    "1 \<le> k" "k \<le> 3" "1 \<le> l" "l \<le> 3" "(k, l) \<noteq> (ci, cj)"
  shows "\<exists>n. get_number S k l = Some n \<and> 1 \<le> n \<and> n \<le> 8 \<and>
           filter (\<lambda>s. snd (snd s) = (k, l)) S = [(''on'', n, k, l)]"
proof -
  obtain name n where g: "get_number S k l = Some n"
    and f: "filter (\<lambda>s. snd (snd s) = (k, l)) S = [(name, n, k, l)]"
    using wf_cell_fact[OF assms(1,3-6)] by blast
  have mem: "(name, n, k, l) \<in> set S"
  proof -
    have "(name, n, k, l) \<in> set (filter (\<lambda>s. snd (snd s) = (k, l)) S)" by (simp add: f)
    then show ?thesis by simp
  qed
  have v: "valid_fact (name, n, k, l)"
    using assms(1) mem by (auto simp: well_formed_def list_all_iff)
  have cmem: "(''clear'', 0, ci, cj) \<in> set S"
    using wf_clear[OF assms(1)] assms(2) by auto
  have "name \<noteq> ''clear''"
  proof
    assume "name = ''clear''"
    then have "k = ci \<and> l = cj"
      using wf_clear_unique[OF assms(1) cmem, of n k l] mem by simp
    then show False using assms(7) by simp
  qed
  then have "name = ''on'' \<and> 1 \<le> n \<and> n \<le> 8" using v by (auto simp: valid_fact_def)
  then show ?thesis using g f by simp
qed

lemma adjacent_grid:
  "adjacent i j k l \<Longrightarrow> 1 \<le> i \<Longrightarrow> i \<le> 3 \<Longrightarrow> 1 \<le> j \<Longrightarrow> j \<le> 3 \<Longrightarrow>
   1 \<le> k \<and> k \<le> 3 \<and> 1 \<le> l \<and> l \<le> 3 \<and> (k, l) \<noteq> (i, j)"
  by (auto simp: adjacent_def)

lemma get_possible_moves_set:
  assumes "get_clear S = Some (ci, cj)"
  shows "\<exists>ms. get_possible_moves S = Inr ms \<and> distinct ms \<and>
           set ms = {(''move'', get_number S k l, ci, cj, k, l) | k l. adjacent ci cj k l}"
  using assms by (auto simp: get_possible_moves_def set_add_def adjacent_def Let_def)

lemma candidate_structure:
  assumes "well_formed S" "get_possible_moves S = Inr ms" "m \<in> set ms"
  shows "\<exists>n ci cj k l. m = (''move'', Some n, ci, cj, k, l) \<and> get_clear S = Some (ci, cj) \<and>
           1 \<le> n \<and> n \<le> 8 \<and> 1 \<le> ci \<and> ci \<le> 3 \<and> 1 \<le> cj \<and> cj \<le> 3 \<and> adjacent ci cj k l \<and>
           filter (\<lambda>s. snd (snd s) = (ci, cj)) S = [(''clear'', 0, ci, cj)] \<and>
           filter (\<lambda>s. snd (snd s) = (k, l)) S = [(''on'', n, k, l)]"
proof -
  obtain ci cj where g: "get_clear S = Some (ci, cj)"
    using wf_clear[OF assms(1)] by blast
  have cc: "filter (\<lambda>s. snd (snd s) = (ci, cj)) S = [(''clear'', 0, ci, cj)]"
    and b: "1 \<le> ci" "ci \<le> 3" "1 \<le> cj" "cj \<le> 3"
    using wf_clear_cell[OF assms(1) g] by auto
  obtain k l where m: "m = (''move'', get_number S k l, ci, cj, k, l)" and adj: "adjacent ci cj k l"
    using get_possible_moves_set[OF g] assms(2,3) by auto
  have kl: "1 \<le> k" "k \<le> 3" "1 \<le> l" "l \<le> 3" "(k, l) \<noteq> (ci, cj)"
    using adjacent_grid[OF adj b] by auto
  obtain n where "get_number S k l = Some n" "1 \<le> n" "n \<le> 8"
     "filter (\<lambda>s. snd (snd s) = (k, l)) S = [(''on'', n, k, l)]"
    using wf_tile_cell[OF assms(1) g kl] by blast
  then show ?thesis using m g cc b adj by auto
qed

section \<open>The regression step on a well-formed state\<close>

lemma touches_iff:
  "touches s (tag, x, i, j, k, l) \<longleftrightarrow> snd (snd s) = (i, j) \<or> snd (snd s) = (k, l)"
  by (cases s) (auto simp: touches_def)

lemma regress_shape:
  assumes d: "distinct (current_state p)"
    and op: "operators p (''move'', Some n, ci, cj, k, l) = Some (operator_of n ci cj k l)"
    and ne: "(k, l) \<noteq> (ci, cj)"
  shows "update_current_state p (''move'', Some n, ci, cj, k, l) =
           Inr (filter (\<lambda>s. \<not> touches s (''move'', Some n, ci, cj, k, l)) (current_state p)
                  @ [(''on'', n, ci, cj), (''clear'', 0, k, l)])"
proof -
  let ?m = "(''move'', Some n, ci, cj, k, l)"
  let ?F = "filter (\<lambda>s. \<not> touches s ?m) (current_state p)"
  have a: "(''on'', n, ci, cj) \<notin> set ?F" by (simp add: touches_iff)
  have b: "(''clear'', 0, k, l) \<notin> set (?F @ [(''on'', n, ci, cj)])" by (simp add: touches_iff)
  have "fold (\<lambda>pc U. set_add U pc) (preconditions (operator_of n ci cj k l)) ?F
      = set_add (set_add ?F (''on'', n, ci, cj)) (''clear'', 0, k, l)"
    by (simp add: operator_of_def)
  also have "\<dots> = set_add (?F @ [(''on'', n, ci, cj)]) (''clear'', 0, k, l)"
    by (simp only: set_add_new[OF a])
  also have "\<dots> = (?F @ [(''on'', n, ci, cj)]) @ [(''clear'', 0, k, l)]"
    by (simp only: set_add_new[OF b])
  finally show ?thesis
    using update_current_state_eq[OF d op] by simp
qed

lemma regress_count:
  assumes fa: "filter (\<lambda>s. snd (snd s) = (ci, cj)) S = [a]"
    and fb: "filter (\<lambda>s. snd (snd s) = (k, l)) S = [b]"
    and ne: "(k, l) \<noteq> (ci, cj)"
  shows "length (filter P (filter (\<lambda>s. \<not> touches s (tag, x, ci, cj, k, l)) S @ [p1, p2]))
           + length (filter P [a]) + length (filter P [b])
         = length (filter P S) + length (filter P [p1]) + length (filter P [p2])"
proof -
  let ?T = "\<lambda>s. touches s (tag, x, ci, cj, k, l)"
  have split: "length (filter P S) =
      length (filter (\<lambda>s. \<not> ?T s \<and> P s) S) + length (filter (\<lambda>s. ?T s \<and> P s) S)"
    by (rule length_filter_split)
  have "length (filter (\<lambda>s. (snd (snd s) = (ci, cj) \<or> snd (snd s) = (k, l)) \<and> P s) S)
      = length (filter P (filter (\<lambda>s. snd (snd s) = (ci, cj)) S))
        + length (filter P (filter (\<lambda>s. snd (snd s) = (k, l)) S))"
    using ne by (intro length_filter_disj) auto
  then have T: "length (filter (\<lambda>s. ?T s \<and> P s) S) = length (filter P [a]) + length (filter P [b])"
    by (simp only: touches_iff fa fb)
  have "length (filter P (filter (\<lambda>s. \<not> ?T s) S @ [p1, p2]))
      = length (filter (\<lambda>s. \<not> ?T s \<and> P s) S) + length (filter P [p1]) + length (filter P [p2])"
    by (simp add: filter_filter)
  with split T show ?thesis by simp
qed

lemma regress_well_formed:
  assumes wf: "well_formed S"
    and fa: "filter (\<lambda>s. snd (snd s) = (ci, cj)) S = [(''clear'', 0, ci, cj)]"
    and fb: "filter (\<lambda>s. snd (snd s) = (k, l)) S = [(''on'', n, k, l)]"
    and n: "1 \<le> n" "n \<le> 8" and c: "1 \<le> ci" "ci \<le> 3" "1 \<le> cj" "cj \<le> 3"
    and adj: "adjacent ci cj k l"
  shows "well_formed (filter (\<lambda>s. \<not> touches s (''move'', Some n, ci, cj, k, l)) S
                        @ [(''on'', n, ci, cj), (''clear'', 0, k, l)])"
proof -
  let ?m = "(''move'', Some n, ci, cj, k, l)"
  let ?S' = "filter (\<lambda>s. \<not> touches s ?m) S @ [(''on'', n, ci, cj), (''clear'', 0, k, l)]"
  have kl: "1 \<le> k" "k \<le> 3" "1 \<le> l" "l \<le> 3" and ne: "(k, l) \<noteq> (ci, cj)"
    using adjacent_grid[OF adj c] by auto
  note cnt = regress_count[OF fa fb ne, where tag="''move''" and x="Some n"
      and ?p1.0="(''on'', n, ci, cj)" and ?p2.0="(''clear'', 0, k, l)"]
  have d: "distinct ?S'"
    using wf ne by (auto simp: well_formed_def touches_iff)
  have len: "length ?S' = 9"
    using cnt[of "\<lambda>s. True"] wf by (simp add: well_formed_def)
  have val: "list_all valid_fact ?S'"
    using wf n c kl by (auto simp: well_formed_def list_all_iff valid_fact_def)
  have cl: "length (filter (\<lambda>s. fst s = ''clear'') ?S') = 1"
    using cnt[of "\<lambda>s. fst s = ''clear''"] wf by (simp add: well_formed_def)
  have on: "length (filter (\<lambda>s. fst s = ''on'') ?S') = 8"
    using cnt[of "\<lambda>s. fst s = ''on''"] wf by (simp add: well_formed_def)
  have tiles: "length (filter (\<lambda>s. fst s = ''on'' \<and> fst (snd s) = x) ?S') = 1"
    if "x \<in> set tile_ids" for x
  proof -
    have "length (filter (\<lambda>s. fst s = ''on'' \<and> fst (snd s) = x) S) = 1"
      using wf that by (simp add: well_formed_def)
    then show ?thesis
      using cnt[of "\<lambda>s. fst s = ''on'' \<and> fst (snd s) = x"] by (simp split: if_splits)
  qed
  have cells: "length (filter (\<lambda>s. snd (snd s) = c0) ?S') = 1"
    if "c0 \<in> set grid_cells" for c0
  proof -
    have "length (filter (\<lambda>s. snd (snd s) = c0) S) = 1"
      using wf that by (simp add: well_formed_def)
    then show ?thesis
      using cnt[of "\<lambda>s. snd (snd s) = c0"] ne by (simp split: if_splits)
  qed
  show ?thesis
    unfolding well_formed_def using d len val cl on tiles cells by blast
qed

lemma touched_facts:
  assumes fa: "filter (\<lambda>s. snd (snd s) = (ci, cj)) S = [a]"
    and fb: "filter (\<lambda>s. snd (snd s) = (k, l)) S = [b]"
  shows "{s \<in> set S. touches s (tag, x, ci, cj, k, l)} = {a, b}"
proof -
  have "{s \<in> set S. touches s (tag, x, ci, cj, k, l)}
      = set (filter (\<lambda>s. snd (snd s) = (ci, cj)) S) \<union> set (filter (\<lambda>s. snd (snd s) = (k, l)) S)"
    by (auto simp: touches_iff)
  then show ?thesis by (simp only: fa fb) auto
qed

lemma regress_inverse:
  assumes fa: "filter (\<lambda>s. snd (snd s) = (ci, cj)) S = [(''clear'', 0, ci, cj)]"
    and fb: "filter (\<lambda>s. snd (snd s) = (k, l)) S = [(''on'', n, k, l)]"
    and op: "ops (''move'', Some n, ci, cj, k, l) = Some (operator_of n ci cj k l)"
  shows "apply_move ops
           (set (filter (\<lambda>s. \<not> touches s (''move'', Some n, ci, cj, k, l)) S
                   @ [(''on'', n, ci, cj), (''clear'', 0, k, l)]))
           (''move'', Some n, ci, cj, k, l) = Some (set S)"
proof -
  let ?m = "(''move'', Some n, ci, cj, k, l)"
  have t: "{s \<in> set S. touches s ?m} = {(''clear'', 0, ci, cj), (''on'', n, k, l)}"
    by (rule touched_facts[OF fa fb])
  have "set S = {s \<in> set S. \<not> touches s ?m} \<union> {s \<in> set S. touches s ?m}" by auto
  then have S: "set S = {s \<in> set S. \<not> touches s ?m} \<union> {(''clear'', 0, ci, cj), (''on'', n, k, l)}"
    by (simp only: t)
  have "({s \<in> set S. \<not> touches s ?m} \<union> {(''on'', n, ci, cj), (''clear'', 0, k, l)}
           - {(''on'', n, ci, cj), (''clear'', 0, k, l)}) \<union> {(''on'', n, k, l), (''clear'', 0, ci, cj)}
        = {s \<in> set S. \<not> touches s ?m} \<union> {(''clear'', 0, ci, cj), (''on'', n, k, l)}"
    by (auto simp: touches_iff)
  then show ?thesis
    using S by (simp add: apply_move_def op operator_of_def Un_commute insert_commute)
qed

lemma candidate_regress:
  assumes wf: "well_formed (current_state p)"
    and ops: "operators p = operators_table"
    and gpm: "get_possible_moves (current_state p) = Inr ms"
    and m: "m \<in> set ms"
  shows "\<exists>cs'. update_current_state p m = Inr cs' \<and> well_formed cs' \<and>
           apply_move operators_table (set cs') m = Some (set (current_state p))"
proof -
  obtain n ci cj k l where m_eq: "m = (''move'', Some n, ci, cj, k, l)"
    and n: "1 \<le> n" "n \<le> 8" and c: "1 \<le> ci" "ci \<le> 3" "1 \<le> cj" "cj \<le> 3"
    and adj: "adjacent ci cj k l"
    and fa: "filter (\<lambda>s. snd (snd s) = (ci, cj)) (current_state p) = [(''clear'', 0, ci, cj)]"
    and fb: "filter (\<lambda>s. snd (snd s) = (k, l)) (current_state p) = [(''on'', n, k, l)]"
    using candidate_structure[OF wf gpm m] by blast
  have op: "operators_table m = Some (operator_of n ci cj k l)"
    unfolding m_eq using n c adj by (rule operators_table_Some)
  have ne: "(k, l) \<noteq> (ci, cj)" using adjacent_grid[OF adj c] by simp
  have d: "distinct (current_state p)" using wf by (simp add: well_formed_def)
  have "update_current_state p m =
          Inr (filter (\<lambda>s. \<not> touches s m) (current_state p) @ [(''on'', n, ci, cj), (''clear'', 0, k, l)])"
    unfolding m_eq using d op ne unfolding m_eq ops[symmetric] by (rule regress_shape)
  moreover have "well_formed (filter (\<lambda>s. \<not> touches s m) (current_state p)
                    @ [(''on'', n, ci, cj), (''clear'', 0, k, l)])"
    unfolding m_eq using wf fa fb n c adj by (rule regress_well_formed)
  moreover have "apply_move operators_table
      (set (filter (\<lambda>s. \<not> touches s m) (current_state p) @ [(''on'', n, ci, cj), (''clear'', 0, k, l)])) m
      = Some (set (current_state p))"
    unfolding m_eq using fa fb op[unfolded m_eq] by (rule regress_inverse)
  ultimately show ?thesis by blast
qed

lemma well_formed_the_goal: "well_formed the_goal"
  by (simp add: well_formed_def the_goal_def valid_fact_def grid_cells_def tile_ids_def)

lemma get_possible_moves_the_goal:
  "get_possible_moves the_goal =
     Inr [(''move'', Some 2, 2, 2, 1, 2), (''move'', Some 6, 2, 2, 3, 2),
          (''move'', Some 8, 2, 2, 2, 1), (''move'', Some 4, 2, 2, 2, 3)]"
  by (simp add: get_possible_moves_def the_goal_def set_add_def)

lemma adjacent_iff:
  assumes "1 \<le> i" "i \<le> 3" "1 \<le> j" "j \<le> 3"
  shows "adjacent i j k l \<longleftrightarrow> 1 \<le> k \<and> k \<le> 3 \<and> 1 \<le> l \<and> l \<le> 3 \<and> \<bar>k - i\<bar> + \<bar>l - j\<bar> = 1"
  using assms unfolding adjacent_def by auto

lemma get_possible_moves_length:
  assumes g: "get_clear S = Some (ci, cj)" and b: "1 \<le> ci" "ci \<le> 3" "1 \<le> cj" "cj \<le> 3"
  shows "\<exists>ms. get_possible_moves S = Inr ms \<and>
           length ms = (if ci = 2 \<and> cj = 2 then 4 else if ci \<noteq> 2 \<and> cj \<noteq> 2 then 2 else 3)"
proof -
  have "ci = 1 \<or> ci = 2 \<or> ci = 3" using b by auto
  moreover have "cj = 1 \<or> cj = 2 \<or> cj = 3" using b by auto
  ultimately show ?thesis
    using g by (elim disjE) (simp_all add: get_possible_moves_def set_add_def)
qed

lemma wf_possible_moves:
  assumes wf: "well_formed S"
  shows "\<exists>ci cj ms. get_clear S = Some (ci, cj) \<and> 1 \<le> ci \<and> ci \<le> 3 \<and> 1 \<le> cj \<and> cj \<le> 3 \<and>
           get_possible_moves S = Inr ms \<and> distinct ms \<and>
           length ms = (if ci = 2 \<and> cj = 2 then 4 else if ci \<noteq> 2 \<and> cj \<noteq> 2 then 2 else 3) \<and>
           set ms = {(''move'', get_number S k l, ci, cj, k, l) | k l. adjacent ci cj k l}"
proof -
  obtain ci cj where g: "get_clear S = Some (ci, cj)"
    and b: "1 \<le> ci" "ci \<le> 3" "1 \<le> cj" "cj \<le> 3"
    using wf_clear[OF wf] by blast
  obtain ms where ms: "get_possible_moves S = Inr ms" "distinct ms"
    "set ms = {(''move'', get_number S k l, ci, cj, k, l) | k l. adjacent ci cj k l}"
    using get_possible_moves_set[OF g] by (elim exE conjE)
  obtain ms' where ms': "get_possible_moves S = Inr ms'"
    "length ms' = (if ci = 2 \<and> cj = 2 then 4 else if ci \<noteq> 2 \<and> cj \<noteq> 2 then 2 else 3)"
    using get_possible_moves_length[OF g b] by blast
  have "ms' = ms" using ms(1) ms'(1) by simp
  then have len: "length ms = (if ci = 2 \<and> cj = 2 then 4 else if ci \<noteq> 2 \<and> cj \<noteq> 2 then 2 else 3)"
    using ms'(2) by simp
  from g b ms(1,2) len ms(3) show ?thesis
    by - (rule exI[of _ ci], rule exI[of _ cj], rule exI[of _ ms], (intro conjI; assumption))
qed

lemma update_current_state_set:
  assumes d: "distinct (current_state p)" and op: "operators p m = Some op"
  shows "\<exists>cs'. update_current_state p m = Inr cs' \<and> distinct cs' \<and>
           set cs' = {s \<in> set (current_state p). \<not> touches s m} \<union> set (preconditions op)"
proof -
  let ?cs = "fold (\<lambda>pc U. set_add U pc) (preconditions op)
                  (filter (\<lambda>s. \<not> touches s m) (current_state p))"
  have 1: "update_current_state p m = Inr ?cs" by (rule update_current_state_eq[OF d op])
  have 2: "distinct ?cs" using d by (intro distinct_fold_set_add) simp
  have 3: "set ?cs = {s \<in> set (current_state p). \<not> touches s m} \<union> set (preconditions op)"
    by (simp add: set_fold_set_add)
  from 1 2 3 show ?thesis by - (rule exI[of _ ?cs], (intro conjI; assumption))
qed

lemma wf_fact_at:
  assumes wf: "well_formed S" and mem: "(name, n, i, j) \<in> set S"
  shows "filter (\<lambda>s. snd (snd s) = (i, j)) S = [(name, n, i, j)]"
proof -
  have "list_all valid_fact S" using wf by (simp add: well_formed_def)
  then have "valid_fact (name, n, i, j)"
    using mem by (simp add: list_all_iff)
  then have "(i, j) \<in> set grid_cells" by (simp add: valid_fact_def in_grid_cells)
  moreover have "\<forall>c \<in> set grid_cells. length (filter (\<lambda>s. snd (snd s) = c) S) = 1"
    using wf by (simp add: well_formed_def)
  ultimately have "length (filter (\<lambda>s. snd (snd s) = (i, j)) S) = 1" by blast
  then show ?thesis using mem by (rule filter_single) simp
qed

lemma regress_classical_aux:
  assumes "{s \<in> A. T s} = {a, b}"
  shows "{s \<in> A. \<not> T s} = A - {b, a}"
proof -
  have "{s \<in> A. \<not> T s} = A - {s \<in> A. T s}" by blast
  then show ?thesis by (simp only: assms insert_commute)
qed

lemma regress_classical:
  assumes wf: "well_formed S"
    and a: "(''clear'', 0, i, j) \<in> set S" and b: "(''on'', x, k, l) \<in> set S"
  shows "{s \<in> set S. \<not> touches s (tag, t, i, j, k, l)} = set S - {(''on'', x, k, l), (''clear'', 0, i, j)}"
proof -
  have "{s \<in> set S. touches s (tag, t, i, j, k, l)} = {(''clear'', 0, i, j), (''on'', x, k, l)}"
    using wf_fact_at[OF wf a] wf_fact_at[OF wf b] by (rule touched_facts)
  then show ?thesis by (rule regress_classical_aux)
qed

lemma update_goal_far:
  "update_current_state (Strips_init one_away 5) (''move'', Some 1, 1, 1, 1, 2) =
     Inr [(''on'', 3, 1, 3), (''on'', 8, 2, 1), (''clear'', 0, 2, 2), (''on'', 4, 2, 3),
          (''on'', 7, 3, 1), (''on'', 6, 3, 2), (''on'', 5, 3, 3), (''on'', 1, 1, 1), (''clear'', 0, 1, 2)]"
  by (simp add: update_current_state_def Strips_init_def the_goal_def touches_def set_remove_def
      operators_table_Some adjacent_def operator_of_def set_add_def)

lemma length_intersection_card:
  "distinct A \<Longrightarrow> length (intersection A B) = card (set A \<inter> set B)"
proof -
  assume d: "distinct A"
  have "set (intersection A B) = set A \<inter> set B" by (auto simp: intersection_def)
  moreover have "distinct (intersection A B)" using d by (simp add: intersection_def)
  ultimately show ?thesis by (metis distinct_card)
qed

lemma length_intersection_le: "length (intersection A B) \<le> length A"
  by (simp add: intersection_def)

lemma move_pts_table:
  assumes ops: "operators p = operators_table" and op: "operators_table m = Some op"
  shows "move_pts p m = Inr (int (card (set (preconditions op) \<inter> set (initial_state p)))) \<and>
         card (set (preconditions op) \<inter> set (initial_state p)) \<le> 2"
proof -
  obtain x i j k l where op_eq: "op = operator_of x i j k l"
    using operators_table_dom[OF op] by blast
  have d: "distinct (preconditions op)" and l: "length (preconditions op) = 2"
    by (simp_all add: op_eq operator_of_def)
  have c: "length (intersection (preconditions op) (initial_state p))
             = card (set (preconditions op) \<inter> set (initial_state p))"
    using d by (rule length_intersection_card)
  have "length (intersection (preconditions op) (initial_state p)) \<le> 2"
    using length_intersection_le[of "preconditions op" "initial_state p"] l by simp
  then show ?thesis using c op ops by (simp add: move_pts_def)
qed

lemma pick_loop_max:
  assumes "\<forall>m \<in> set ms. \<exists>q. move_pts p m = Inr q \<and> 0 \<le> q"
    and "\<forall>m \<in> set w. move_pts p m = Inr wp"
    and "w = [] \<longrightarrow> wp < 0"
  shows "\<exists>w' wp'. pick_loop p ms (w, wp) = Inr (w', wp') \<and>
           (\<forall>m \<in> set w'. move_pts p m = Inr wp') \<and> set w' \<subseteq> set w \<union> set ms \<and> wp \<le> wp' \<and>
           (\<forall>m \<in> set ms. \<forall>q. move_pts p m = Inr q \<longrightarrow> q \<le> wp') \<and>
           (w' = [] \<longrightarrow> w = [] \<and> ms = [])"
  using assms
proof (induction ms arbitrary: w wp)
  case Nil
  then show ?case by simp
next
  case (Cons a ms)
  obtain q where q: "move_pts p a = Inr q" "0 \<le> q"
    using Cons.prems(1) by auto
  have rest: "\<forall>m \<in> set ms. \<exists>q. move_pts p m = Inr q \<and> 0 \<le> q"
    using Cons.prems(1) by simp
  consider (gt) "q > wp" | (eq) "q = wp" | (lt) "q < wp" by linarith
  then show ?case
  proof cases
    case gt
    obtain w' wp' where r: "pick_loop p ms ([a], q) = Inr (w', wp')"
      and r1: "\<forall>m \<in> set w'. move_pts p m = Inr wp'" and r2: "set w' \<subseteq> set [a] \<union> set ms"
      and r3: "q \<le> wp'" and r4: "\<forall>m \<in> set ms. \<forall>q. move_pts p m = Inr q \<longrightarrow> q \<le> wp'"
      and r5: "w' = [] \<longrightarrow> [a] = [] \<and> ms = []"
      using Cons.IH[OF rest, of "[a]" q] q(1) by auto
    have "pick_loop p (a # ms) (w, wp) = Inr (w', wp')"
      using gt q(1) r by (simp add: set_add_def)
    moreover have "set w' \<subseteq> set w \<union> set (a # ms)" using r2 by auto
    moreover have "wp \<le> wp'" using gt r3 by simp
    moreover have "\<forall>m \<in> set (a # ms). \<forall>q. move_pts p m = Inr q \<longrightarrow> q \<le> wp'"
      using r4 r3 q(1) by auto
    moreover have "w' = [] \<longrightarrow> w = [] \<and> a # ms = []" using r5 by simp
    ultimately show ?thesis using r1 by blast
  next
    case eq
    have inv: "\<forall>m \<in> set (set_add w a). move_pts p m = Inr wp"
      using Cons.prems(2) q(1) eq by (auto simp: set_set_add)
    have sne: "set_add w a \<noteq> []" by (auto simp: set_add_def)
    then have ne: "set_add w a = [] \<longrightarrow> wp < 0" by simp
    obtain w' wp' where r: "pick_loop p ms (set_add w a, wp) = Inr (w', wp')"
      and r1: "\<forall>m \<in> set w'. move_pts p m = Inr wp'" and r2: "set w' \<subseteq> set (set_add w a) \<union> set ms"
      and r3: "wp \<le> wp'" and r4: "\<forall>m \<in> set ms. \<forall>q. move_pts p m = Inr q \<longrightarrow> q \<le> wp'"
      and r5: "w' = [] \<longrightarrow> set_add w a = [] \<and> ms = []"
      using Cons.IH[OF rest inv ne] by auto
    have "pick_loop p (a # ms) (w, wp) = Inr (w', wp')"
      using eq q(1) r by simp
    moreover have "set w' \<subseteq> set w \<union> set (a # ms)" using r2 by (auto simp: set_set_add)
    moreover have "\<forall>m \<in> set (a # ms). \<forall>q. move_pts p m = Inr q \<longrightarrow> q \<le> wp'"
      using r4 r3 q(1) eq by auto
    moreover have "w' = [] \<longrightarrow> w = [] \<and> a # ms = []" using r5 sne by simp
    ultimately show ?thesis using r1 r3 by blast
  next
    case lt
    have wne: "w \<noteq> []" using Cons.prems(3) lt q(2) by auto
    obtain w' wp' where r: "pick_loop p ms (w, wp) = Inr (w', wp')"
      and r1: "\<forall>m \<in> set w'. move_pts p m = Inr wp'" and r2: "set w' \<subseteq> set w \<union> set ms"
      and r3: "wp \<le> wp'" and r4: "\<forall>m \<in> set ms. \<forall>q. move_pts p m = Inr q \<longrightarrow> q \<le> wp'"
      and r5: "w' = [] \<longrightarrow> w = [] \<and> ms = []"
      using Cons.IH[OF rest Cons.prems(2) Cons.prems(3)] by auto
    have "pick_loop p (a # ms) (w, wp) = Inr (w', wp')"
      using lt q(1) r by simp
    moreover have "set w' \<subseteq> set w \<union> set (a # ms)" using r2 by auto
    moreover have "\<forall>m \<in> set (a # ms). \<forall>q. move_pts p m = Inr q \<longrightarrow> q \<le> wp'"
      using r4 r3 q(1) lt by auto
    moreover have "w' = [] \<longrightarrow> w = [] \<and> a # ms = []" using r5 wne by simp
    ultimately show ?thesis using r1 r3 by blast
  qed
qed

lemma pick_move_max:
  assumes ne: "ms \<noteq> []"
    and pts: "\<forall>m \<in> set ms. \<exists>q. move_pts p m = Inr q \<and> 0 \<le> q"
  shows "\<exists>m q. pick_move p ms r = Inr m \<and> m \<in> set ms \<and> move_pts p m = Inr q \<and>
           (\<forall>m' \<in> set ms. \<forall>q'. move_pts p m' = Inr q' \<longrightarrow> q' \<le> q)"
proof -
  obtain w' wp' where r: "pick_loop p ms ([], - 1) = Inr (w', wp')"
    and r1: "\<forall>m \<in> set w'. move_pts p m = Inr wp'" and r2: "set w' \<subseteq> set [] \<union> set ms"
    and r4: "\<forall>m \<in> set ms. \<forall>q. move_pts p m = Inr q \<longrightarrow> q \<le> wp'"
    and r5: "w' = [] \<longrightarrow> [] = ([] :: move list) \<and> ms = []"
    using pick_loop_max[OF pts, of "[]" "- 1"] by auto
  have wne: "w' \<noteq> []" using r5 ne by simp
  let ?m = "w' ! (r mod length w')"
  have mem: "?m \<in> set w'" using wne by simp
  have "pick_move p ms r = Inr ?m" using r wne by (simp add: pick_move_def choice_def)
  moreover have "?m \<in> set ms" using mem r2 by auto
  moreover have "move_pts p ?m = Inr wp'" using mem r1 by blast
  ultimately show ?thesis using r4 by blast
qed

lemma update_current_state_fields:
  "initial_state (p\<lparr>current_state := cs\<rparr>) = initial_state p \<and>
   max_elaps_time (p\<lparr>current_state := cs\<rparr>) = max_elaps_time p \<and>
   operators (p\<lparr>current_state := cs\<rparr>) = operators p \<and>
   goal_state (p\<lparr>current_state := cs\<rparr>) = goal_state p"
  by simp

lemma regress_moves_fields:
  "regress_moves p ms = Inr p' \<Longrightarrow>
   initial_state p' = initial_state p \<and> max_elaps_time p' = max_elaps_time p \<and>
   operators p' = operators p \<and> goal_state p' = goal_state p \<and>
   strips.more p' = strips.more p"
proof (induction ms arbitrary: p)
  case Nil
  then show ?case by simp
next
  case (Cons m ms)
  from Cons.prems obtain cs where u: "update_current_state p m = Inr cs"
    and r: "regress_moves (p\<lparr>current_state := cs\<rparr>) ms = Inr p'"
    by (cases "update_current_state p m") simp_all
  show ?case using Cons.IH[OF r] by simp
qed

lemma regress_moves_frame:
  assumes "regress_moves p ms = Inr p'"
  shows "p' = p\<lparr>current_state := current_state p'\<rparr>"
  using regress_moves_fields[OF assms] by (intro strips.equality) simp_all

lemma run_loop_trace:
  assumes "run_loop clock rnd tic k p acc = Some res"
  shows "\<forall>b ops p'. res = Inr (b, ops, p') \<longrightarrow>
     (\<exists>new. ops = (if b then rev (acc @ new) else acc @ new) \<and> regress_moves p new = Inr p')"
proof (rule run_loop.raw_induct[where P = "\<lambda>clock rnd tic k p acc res.
     \<forall>b ops p'. res = Inr (b, ops, p') \<longrightarrow>
       (\<exists>new. ops = (if b then rev (acc @ new) else acc @ new) \<and> regress_moves p new = Inr p')",
     OF _ assms], goal_cases)
  case (1 rl clock rnd tic k p acc res)
  note IH = 1(1) and body = 1(2)
  show ?case
  proof (intro allI impI)
    fix b ops p' assume res: "res = Inr (b, ops, p')"
    show "\<exists>new. ops = (if b then rev (acc @ new) else acc @ new) \<and> regress_moves p new = Inr p'"
    proof (cases "int (length (intersection (current_state p) (initial_state p))) < 9")
      case False
      have "res = Inr (True, rev acc, p)" using body False by simp
      then have "b" "ops = rev acc" "p' = p" using res by simp_all
      then show ?thesis by (intro exI[of _ "[]"]) simp
    next
      case c: True
      show ?thesis
      proof (cases "get_possible_moves (current_state p)")
        case (Inl e)
        then have "res = Inl e" using body c by simp
        then show ?thesis using res by simp
      next
        case gpm: (Inr ms)
        show ?thesis
        proof (cases "pick_move p ms (rnd k)")
          case (Inl e)
          then have "res = Inl e" using body c gpm by simp
          then show ?thesis using res by simp
        next
          case pm: (Inr m)
          show ?thesis
          proof (cases "update_current_state p m")
            case (Inl e)
            then have "res = Inl e" using body c gpm pm by simp
            then show ?thesis using res by simp
          next
            case upd: (Inr cs)
            show ?thesis
            proof (cases "max_elaps_time p < clock (Suc k) - tic")
              case True
              have "res = Inr (False, acc @ [m], p\<lparr>current_state := cs\<rparr>)"
                using body c gpm pm upd True by simp
              then have "\<not> b" "ops = acc @ [m]" "p' = p\<lparr>current_state := cs\<rparr>"
                using res by simp_all
              then show ?thesis using upd by (intro exI[of _ "[m]"]) simp
            next
              case False
              have "rl clock rnd tic (Suc k) (p\<lparr>current_state := cs\<rparr>) (acc @ [m]) = Some res"
                using body c gpm pm upd False by simp
              from IH[OF this, rule_format, OF res] obtain new where
                n1: "ops = (if b then rev ((acc @ [m]) @ new) else (acc @ [m]) @ new)"
                and n2: "regress_moves (p\<lparr>current_state := cs\<rparr>) new = Inr p'"
                by (elim exE conjE)
              have r: "regress_moves p (m # new) = Inr p'" using n2 upd by simp
              have o: "ops = (if b then rev (acc @ m # new) else acc @ m # new)"
                using n1 by simp
              from o r show ?thesis by (intro exI[of _ "m # new"] conjI)
            qed
          qed
        qed
      qed
    qed
  qed
qed

lemma run_one_away_in_time:
  "run (Strips_init one_away 5) (\<lambda>k. 0) rnd =
     Some (Inr (True, [(''move'', Some 4, 2, 2, 2, 3)],
       (Strips_init one_away 5)\<lparr>current_state :=
          [(''on'', 1, 1, 1), (''on'', 2, 1, 2), (''on'', 3, 1, 3),
           (''on'', 8, 2, 1), (''on'', 7, 3, 1), (''on'', 6, 3, 2),
           (''on'', 5, 3, 3), (''on'', 4, 2, 2), (''clear'', 0, 2, 3)]\<rparr>))"
  by (simp add: run_def run_loop.simps Strips_init_def one_away_def the_goal_def intersection_def
     get_possible_moves_def set_add_def pick_move_def move_pts_def operators_table_Some adjacent_def
     operator_of_def choice_def update_current_state_def touches_def set_remove_def)

lemma run_one_away_late:
  "run (Strips_init one_away 5) (\<lambda>k. real k * 10) rnd =
     Some (Inr (False, [(''move'', Some 4, 2, 2, 2, 3)],
       (Strips_init one_away 5)\<lparr>current_state :=
          [(''on'', 1, 1, 1), (''on'', 2, 1, 2), (''on'', 3, 1, 3),
           (''on'', 8, 2, 1), (''on'', 7, 3, 1), (''on'', 6, 3, 2),
           (''on'', 5, 3, 3), (''on'', 4, 2, 2), (''clear'', 0, 2, 3)]\<rparr>))"
  by (simp add: run_def run_loop.simps Strips_init_def one_away_def the_goal_def intersection_def
     get_possible_moves_def set_add_def pick_move_def move_pts_def operators_table_Some adjacent_def
     operator_of_def choice_def update_current_state_def touches_def set_remove_def)

lemma run_one_away_budget:
  assumes "clock 1 - clock 0 \<le> budget"
  shows "run (Strips_init one_away budget) clock rnd =
     Some (Inr (True, [(''move'', Some 4, 2, 2, 2, 3)],
       (Strips_init one_away budget)\<lparr>current_state :=
          [(''on'', 1, 1, 1), (''on'', 2, 1, 2), (''on'', 3, 1, 3),
           (''on'', 8, 2, 1), (''on'', 7, 3, 1), (''on'', 6, 3, 2),
           (''on'', 5, 3, 3), (''on'', 4, 2, 2), (''clear'', 0, 2, 3)]\<rparr>))"
proof -
  have "\<not> budget < clock (Suc 0) - clock 0" using assms by simp
  then show ?thesis
    by (simp add: run_def run_loop.simps Strips_init_def one_away_def the_goal_def intersection_def
     get_possible_moves_def set_add_def pick_move_def move_pts_def operators_table_Some adjacent_def
     operator_of_def choice_def update_current_state_def touches_def set_remove_def)
qed

lemma run_at_goal:
  assumes "set init = set the_goal"
  shows "run (Strips_init init budget) clock rnd = Some (Inr (True, [], Strips_init init budget))"
proof -
  have "intersection the_goal init = the_goal"
    unfolding intersection_def using assms by simp
  then have "\<not> int (length (intersection (current_state (Strips_init init budget))
                 (initial_state (Strips_init init budget)))) < 9"
    by (simp add: Strips_init_def) (simp add: the_goal_def)
  then show ?thesis
    unfolding run_def by (subst run_loop.simps) simp
qed

lemma apply_plan_append:
  "apply_plan ops F (xs @ ys) =
     (case apply_plan ops F xs of None \<Rightarrow> None | Some F' \<Rightarrow> apply_plan ops F' ys)"
  by (induction xs arbitrary: F) (auto split: option.splits)

lemma exit_equal:
  assumes A: "well_formed A" and B: "well_formed B"
    and ex: "\<not> int (length (intersection A B)) < 9"
  shows "set A = set B"
proof -
  have lA: "length A = 9" and dA: "distinct A" using A by (simp_all add: well_formed_def)
  have lB: "length B = 9" and dB: "distinct B" using B by (simp_all add: well_formed_def)
  have "length (filter (\<lambda>s. True) A) =
          length (filter (\<lambda>s. \<not> s \<in> set B \<and> True) A) + length (filter (\<lambda>s. s \<in> set B \<and> True) A)"
    by (rule length_filter_split)
  then have split: "length A = length (filter (\<lambda>s. s \<notin> set B) A) + length (filter (\<lambda>s. s \<in> set B) A)"
    by simp
  have "9 \<le> length (filter (\<lambda>x. x \<in> set B) A)"
    using ex by (simp add: intersection_def)
  then have "length (filter (\<lambda>s. s \<notin> set B) A) = 0" using lA split by linarith
  then have "filter (\<lambda>s. s \<notin> set B) A = []" by simp
  then have sub: "set A \<subseteq> set B" by (auto simp: filter_empty_conv)
  have "card (set A) = card (set B)"
    using lA lB distinct_card[OF dA] distinct_card[OF dB] by simp
  then show ?thesis using sub by (intro card_subset_eq) simp_all
qed

lemma candidate_in_table:
  assumes wf: "well_formed S" and gpm: "get_possible_moves S = Inr ms" and m: "m \<in> set ms"
  shows "\<exists>n i j k l. m = (''move'', Some n, i, j, k, l) \<and> 1 \<le> n \<and> n \<le> 8 \<and>
           1 \<le> i \<and> i \<le> 3 \<and> 1 \<le> j \<and> j \<le> 3 \<and> adjacent i j k l \<and>
           operators_table m = Some (operator_of n i j k l)"
proof -
  obtain n ci cj k l where m_eq: "m = (''move'', Some n, ci, cj, k, l)"
    and n: "1 \<le> n" "n \<le> 8" and c: "1 \<le> ci" "ci \<le> 3" "1 \<le> cj" "cj \<le> 3"
    and adj: "adjacent ci cj k l"
    using candidate_structure[OF wf gpm m] by (elim exE conjE)
  have op: "operators_table m = Some (operator_of n ci cj k l)"
    unfolding m_eq using n c adj by (rule operators_table_Some)
  from m_eq n c adj op show ?thesis
    by - (rule exI[of _ n], rule exI[of _ ci], rule exI[of _ cj], rule exI[of _ k],
          rule exI[of _ l], (intro conjI; assumption))
qed

lemma wf_pick_move:
  assumes wf: "well_formed (current_state p)" and ops: "operators p = operators_table"
  shows "\<exists>ms. get_possible_moves (current_state p) = Inr ms \<and> ms \<noteq> [] \<and>
           set ms \<subseteq> dom operators_table \<and>
           (\<forall>r. \<exists>m. pick_move p ms r = Inr m \<and> m \<in> set ms)"
proof -
  obtain ci cj :: int and ms where gpm: "get_possible_moves (current_state p) = Inr ms"
    and len: "length ms = (if ci = 2 \<and> cj = 2 then 4 else if ci \<noteq> 2 \<and> cj \<noteq> 2 then 2 else 3)"
    using wf_possible_moves[OF wf] by (elim exE conjE)
  have ne: "ms \<noteq> []" using len by (auto split: if_splits)
  have keys: "set ms \<subseteq> dom operators_table"
  proof
    fix m assume "m \<in> set ms"
    then obtain n i j k l where "operators_table m = Some (operator_of n i j k l)"
      using candidate_in_table[OF wf gpm] by blast
    then show "m \<in> dom operators_table" by (simp add: dom_def)
  qed
  have pts: "\<forall>m \<in> set ms. \<exists>q. move_pts p m = Inr q \<and> 0 \<le> q"
  proof
    fix m assume "m \<in> set ms"
    then obtain op where "operators_table m = Some op" using keys by auto
    then have "move_pts p m = Inr (int (card (set (preconditions op) \<inter> set (initial_state p))))"
      using move_pts_table[OF ops] by blast
    then show "\<exists>q. move_pts p m = Inr q \<and> 0 \<le> q" by simp
  qed
  have pick: "\<forall>r. \<exists>m. pick_move p ms r = Inr m \<and> m \<in> set ms"
  proof
    fix r
    obtain m where "pick_move p ms r = Inr m" "m \<in> set ms"
      using pick_move_max[OF ne pts, of r] by (elim exE conjE)
    then show "\<exists>m. pick_move p ms r = Inr m \<and> m \<in> set ms" by blast
  qed
  from gpm ne keys pick show ?thesis
    by - (rule exI[of _ ms], (intro conjI; assumption))
qed

lemma run_loop_well_formed:
  assumes "run_loop clock rnd tic k p acc = Some res"
  shows "well_formed (current_state p) \<longrightarrow> operators p = operators_table \<longrightarrow>
     (\<forall>e. res \<noteq> Inl e) \<and>
     (\<forall>b ops p'. res = Inr (b, ops, p') \<longrightarrow>
        well_formed (current_state p') \<and>
        (b \<longrightarrow> \<not> int (length (intersection (current_state p') (initial_state p'))) < 9) \<and>
        (\<exists>new. ops = (if b then rev (acc @ new) else acc @ new) \<and>
           apply_plan operators_table (set (current_state p')) (rev new)
             = Some (set (current_state p))))"
proof (rule run_loop.raw_induct[where P = "\<lambda>clock rnd tic k p acc res.
     well_formed (current_state p) \<longrightarrow> operators p = operators_table \<longrightarrow>
     (\<forall>e. res \<noteq> Inl e) \<and>
     (\<forall>b ops p'. res = Inr (b, ops, p') \<longrightarrow>
        well_formed (current_state p') \<and>
        (b \<longrightarrow> \<not> int (length (intersection (current_state p') (initial_state p'))) < 9) \<and>
        (\<exists>new. ops = (if b then rev (acc @ new) else acc @ new) \<and>
           apply_plan operators_table (set (current_state p')) (rev new)
             = Some (set (current_state p))))",
     OF _ assms], goal_cases)
  case (1 rl clock rnd tic k p acc res)
  note IH = 1(1) and body = 1(2)
  show ?case
  proof (intro impI)
    assume wf: "well_formed (current_state p)" and ops: "operators p = operators_table"
    show "(\<forall>e. res \<noteq> Inl e) \<and>
     (\<forall>b ops p'. res = Inr (b, ops, p') \<longrightarrow>
        well_formed (current_state p') \<and>
        (b \<longrightarrow> \<not> int (length (intersection (current_state p') (initial_state p'))) < 9) \<and>
        (\<exists>new. ops = (if b then rev (acc @ new) else acc @ new) \<and>
           apply_plan operators_table (set (current_state p')) (rev new)
             = Some (set (current_state p))))"
    proof (cases "int (length (intersection (current_state p) (initial_state p))) < 9")
      case False
      have r: "res = Inr (True, rev acc, p)" using body False by simp
      have "\<exists>new. rev acc = (if True then rev (acc @ new) else acc @ new) \<and>
           apply_plan operators_table (set (current_state p)) (rev new) = Some (set (current_state p))"
        by (intro exI[of _ "[]"]) simp
      then show ?thesis using r wf False by auto
    next
      case c: True
      obtain ms where gpm: "get_possible_moves (current_state p) = Inr ms"
        and pick: "\<forall>r. \<exists>m. pick_move p ms r = Inr m \<and> m \<in> set ms"
        using wf_pick_move[OF wf ops] by (elim exE conjE)
      obtain m where pm: "pick_move p ms (rnd k) = Inr m" and mem: "m \<in> set ms"
        using pick by blast
      obtain cs where upd: "update_current_state p m = Inr cs" and wf': "well_formed cs"
        and inv: "apply_move operators_table (set cs) m = Some (set (current_state p))"
        using candidate_regress[OF wf ops gpm mem] by (elim exE conjE)
      have one: "apply_plan operators_table (set cs) [m] = Some (set (current_state p))"
        using inv by simp
      show ?thesis
      proof (cases "max_elaps_time p < clock (Suc k) - tic")
        case True
        have r: "res = Inr (False, acc @ [m], p\<lparr>current_state := cs\<rparr>)"
          using body c gpm pm upd True by simp
        have "\<exists>new. acc @ [m] = (if False then rev (acc @ new) else acc @ new) \<and>
           apply_plan operators_table (set (current_state (p\<lparr>current_state := cs\<rparr>))) (rev new)
             = Some (set (current_state p))"
          using one by (intro exI[of _ "[m]"]) simp
        then show ?thesis using r wf' by auto
      next
        case False
        have rec: "rl clock rnd tic (Suc k) (p\<lparr>current_state := cs\<rparr>) (acc @ [m]) = Some res"
          using body c gpm pm upd False by simp
        have wf2: "well_formed (current_state (p\<lparr>current_state := cs\<rparr>))" using wf' by simp
        have ops2: "operators (p\<lparr>current_state := cs\<rparr>) = operators_table" using ops by simp
        note ih = IH[OF rec, rule_format, OF wf2 ops2]
        have noerr: "\<forall>e. res \<noteq> Inl e" using ih by (rule conjunct1)
        have rest: "\<forall>b ops p'. res = Inr (b, ops, p') \<longrightarrow>
          well_formed (current_state p') \<and>
          (b \<longrightarrow> \<not> int (length (intersection (current_state p') (initial_state p'))) < 9) \<and>
          (\<exists>new. ops = (if b then rev (acc @ new) else acc @ new) \<and>
             apply_plan operators_table (set (current_state p')) (rev new)
               = Some (set (current_state p)))"
        proof (intro allI impI)
          fix b ops' p' assume res: "res = Inr (b, ops', p')"
          note f = ih[THEN conjunct2, rule_format, OF res]
          have w: "well_formed (current_state p')" using f by (rule conjunct1)
          have e: "b \<longrightarrow> \<not> int (length (intersection (current_state p') (initial_state p'))) < 9"
            using f by (rule conjunct2[THEN conjunct1])
          have ex: "\<exists>new. ops' = (if b then rev ((acc @ [m]) @ new) else (acc @ [m]) @ new) \<and>
               apply_plan operators_table (set (current_state p')) (rev new)
                 = Some (set (current_state (p\<lparr>current_state := cs\<rparr>)))"
            using f by (rule conjunct2[THEN conjunct2])
          from ex obtain new where
            n1: "ops' = (if b then rev ((acc @ [m]) @ new) else (acc @ [m]) @ new)"
            and n2: "apply_plan operators_table (set (current_state p')) (rev new) = Some (set cs)"
            by auto
          have o: "ops' = (if b then rev (acc @ m # new) else acc @ m # new)" using n1 by simp
          have a: "apply_plan operators_table (set (current_state p')) (rev (m # new))
                     = Some (set (current_state p))"
            using n2 one by (simp add: apply_plan_append)
          have "\<exists>new. ops' = (if b then rev (acc @ new) else acc @ new) \<and>
             apply_plan operators_table (set (current_state p')) (rev new)
               = Some (set (current_state p))"
            using o a by (intro exI[of _ "m # new"] conjI)
          then show "well_formed (current_state p') \<and>
            (b \<longrightarrow> \<not> int (length (intersection (current_state p') (initial_state p'))) < 9) \<and>
            (\<exists>new. ops' = (if b then rev (acc @ new) else acc @ new) \<and>
               apply_plan operators_table (set (current_state p')) (rev new)
                 = Some (set (current_state p)))"
            using w e by (intro conjI)
        qed
        from noerr rest show ?thesis by (rule conjI)
      qed
    qed
  qed
qed

lemma well_formed_one_away: "well_formed one_away"
  by (simp add: well_formed_def one_away_def valid_fact_def grid_cells_def tile_ids_def)

lemma fresh_planner:
  shows "well_formed (current_state (Strips_init init budget))"
    and "operators (Strips_init init budget) = operators_table"
    and "initial_state (Strips_init init budget) = init"
    and "current_state (Strips_init init budget) = the_goal"
  using well_formed_the_goal by (simp_all add: Strips_init_def)

section \<open>Properties of the planner\<close>

text \<open>
  C4. From a well-formed board state, the regression step by any move that
  \<open>get_possible_moves\<close> returns for that state succeeds and yields a well-formed
  board state again.
\<close>

theorem regress_preserves_well_formed:
  assumes "well_formed (current_state p)"
    and "operators p = operators_table"
    and "get_possible_moves (current_state p) = Inr ms"
    and "m \<in> set ms"
  shows "\<exists>cs'. update_current_state p m = Inr cs' \<and> well_formed cs'"
  using candidate_regress[OF assms] by blast

theorem regress_preserves_well_formed_witness:
  "well_formed (current_state (Strips_init one_away 5)) \<and>
   operators (Strips_init one_away 5) = operators_table \<and>
   get_possible_moves (current_state (Strips_init one_away 5)) =
     Inr [(''move'', Some 2, 2, 2, 1, 2), (''move'', Some 6, 2, 2, 3, 2),
          (''move'', Some 8, 2, 2, 2, 1), (''move'', Some 4, 2, 2, 2, 3)] \<and>
   (''move'', Some 8, 2, 2, 2, 1) \<in>
     set [(''move'', Some 2, 2, 2, 1, 2), (''move'', Some 6, 2, 2, 3, 2),
          (''move'', Some 8, 2, 2, 2, 1), (''move'', Some (4::int), 2::int, 2::int, 2::int, 3::int)] \<and>
   (\<exists>cs'. update_current_state (Strips_init one_away 5) (''move'', Some 8, 2, 2, 2, 1) = Inr cs'
      \<and> well_formed cs')"
proof -
  let ?p = "Strips_init one_away 5"
  have 1: "well_formed (current_state ?p)"
    using well_formed_the_goal by (simp add: Strips_init_def)
  have 2: "operators ?p = operators_table" by (simp add: Strips_init_def)
  have 3: "get_possible_moves (current_state ?p) =
     Inr [(''move'', Some 2, 2, 2, 1, 2), (''move'', Some 6, 2, 2, 3, 2),
          (''move'', Some 8, 2, 2, 2, 1), (''move'', Some 4, 2, 2, 2, 3)]"
    using get_possible_moves_the_goal by (simp add: Strips_init_def)
  have 4: "(''move'', Some 8, 2, 2, 2, 1) \<in>
     set [(''move'', Some 2, 2, 2, 1, 2), (''move'', Some 6, 2, 2, 3, 2),
          (''move'', Some 8, 2, 2, 2, 1), (''move'', Some (4::int), 2::int, 2::int, 2::int, 3::int)]"
    by simp
  show ?thesis
    using 1 2 3 4 regress_preserves_well_formed[OF 1 2 3 4] by blast
qed

text \<open>
  C5. On a well-formed board state \<open>get_possible_moves\<close> returns 2 moves when the blank
  is in a corner, 3 when it is on an edge and 4 when it is in the centre, so between 2
  and 4. The blank cell \<open>(ci, cj)\<close> is the cell of the one \<open>Clear\<close> fact of the state, and
  the moves are exactly the tuples \<open>(''move'', n, ci, cj, k, l)\<close> for the in-bounds
  orthogonal neighbours \<open>(k, l)\<close> of the blank cell, where \<open>n\<close> is the tile on \<open>(k, l)\<close>:
  the fact \<open>On(n, k, l)\<close> is in the state and \<open>n\<close> is in 1..8.
\<close>

theorem get_possible_moves_well_formed:
  assumes "well_formed S"
  shows "\<exists>ci cj ms. get_clear S = Some (ci, cj) \<and> get_possible_moves S = Inr ms \<and> distinct ms \<and>
           length ms = (if (ci = 1 \<or> ci = 3) \<and> (cj = 1 \<or> cj = 3) then 2
                        else if ci = 2 \<and> cj = 2 then 4 else 3) \<and>
           2 \<le> length ms \<and> length ms \<le> 4 \<and>
           set ms = {(''move'', get_number S k l, ci, cj, k, l) | k l.
                       1 \<le> k \<and> k \<le> 3 \<and> 1 \<le> l \<and> l \<le> 3 \<and> \<bar>k - ci\<bar> + \<bar>l - cj\<bar> = 1} \<and>
           (\<forall>k l. 1 \<le> k \<and> k \<le> 3 \<and> 1 \<le> l \<and> l \<le> 3 \<and> \<bar>k - ci\<bar> + \<bar>l - cj\<bar> = 1 \<longrightarrow>
                  (\<exists>n. get_number S k l = Some n \<and> 1 \<le> n \<and> n \<le> 8 \<and> (''on'', n, k, l) \<in> set S)) \<and>
           (''clear'', 0, ci, cj) \<in> set S \<and>
           (\<forall>n i j. (''clear'', n, i, j) \<in> set S \<longrightarrow> n = 0 \<and> i = ci \<and> j = cj) \<and>
           set ms = {(''move'', Some n, ci, cj, k, l) | n k l.
                       1 \<le> k \<and> k \<le> 3 \<and> 1 \<le> l \<and> l \<le> 3 \<and> \<bar>k - ci\<bar> + \<bar>l - cj\<bar> = 1 \<and>
                       (''on'', n, k, l) \<in> set S}"
proof -
  obtain ci cj ms where g: "get_clear S = Some (ci, cj)"
    and b: "1 \<le> ci" "ci \<le> 3" "1 \<le> cj" "cj \<le> 3"
    and ms: "get_possible_moves S = Inr ms" "distinct ms"
    and len: "length ms = (if ci = 2 \<and> cj = 2 then 4 else if ci \<noteq> 2 \<and> cj \<noteq> 2 then 2 else 3)"
    and set_ms: "set ms = {(''move'', get_number S k l, ci, cj, k, l) | k l. adjacent ci cj k l}"
    using wf_possible_moves[OF assms] by (elim exE conjE)
  have "ci = 1 \<or> ci = 2 \<or> ci = 3" using b by linarith
  moreover have "cj = 1 \<or> cj = 2 \<or> cj = 3" using b by linarith
  ultimately have len': "length ms = (if (ci = 1 \<or> ci = 3) \<and> (cj = 1 \<or> cj = 3) then 2
                        else if ci = 2 \<and> cj = 2 then 4 else 3)"
    using len by (elim disjE) simp_all
  have set': "set ms = {(''move'', get_number S k l, ci, cj, k, l) | k l.
                       1 \<le> k \<and> k \<le> 3 \<and> 1 \<le> l \<and> l \<le> 3 \<and> \<bar>k - ci\<bar> + \<bar>l - cj\<bar> = 1}"
    unfolding set_ms by (simp only: adjacent_iff[OF b])
  have cell: "\<exists>n. get_number S k l = Some n \<and> 1 \<le> n \<and> n \<le> 8 \<and>
           filter (\<lambda>s. snd (snd s) = (k, l)) S = [(''on'', n, k, l)]"
    if kl: "1 \<le> k \<and> k \<le> 3 \<and> 1 \<le> l \<and> l \<le> 3 \<and> \<bar>k - ci\<bar> + \<bar>l - cj\<bar> = 1" for k l
  proof -
    have ne: "(k, l) \<noteq> (ci, cj)" using kl by auto
    show ?thesis
      using assms g _ _ _ _ ne by (rule wf_tile_cell) (use kl in simp_all)
  qed
  have tiles: "\<forall>k l. 1 \<le> k \<and> k \<le> 3 \<and> 1 \<le> l \<and> l \<le> 3 \<and> \<bar>k - ci\<bar> + \<bar>l - cj\<bar> = 1 \<longrightarrow>
      (\<exists>n. get_number S k l = Some n \<and> 1 \<le> n \<and> n \<le> 8 \<and> (''on'', n, k, l) \<in> set S)"
  proof (intro allI impI)
    fix k l
    assume kl: "1 \<le> k \<and> k \<le> 3 \<and> 1 \<le> l \<and> l \<le> 3 \<and> \<bar>k - ci\<bar> + \<bar>l - cj\<bar> = 1"
    obtain n where n: "get_number S k l = Some n" "1 \<le> n" "n \<le> 8"
      and f: "filter (\<lambda>s. snd (snd s) = (k, l)) S = [(''on'', n, k, l)]"
      using cell[OF kl] by (elim exE conjE)
    have "(''on'', n, k, l) \<in> set (filter (\<lambda>s. snd (snd s) = (k, l)) S)" by (simp only: f) simp
    then have "(''on'', n, k, l) \<in> set S" by simp
    then show "\<exists>n. get_number S k l = Some n \<and> 1 \<le> n \<and> n \<le> 8 \<and> (''on'', n, k, l) \<in> set S"
      using n by blast
  qed
  have cf: "filter (\<lambda>s. snd (snd s) = (ci, cj)) S = [(''clear'', 0, ci, cj)]"
    using wf_clear_cell[OF assms g] by (rule conjunct1)
  have "(''clear'', 0, ci, cj) \<in> set (filter (\<lambda>s. snd (snd s) = (ci, cj)) S)" by (simp only: cf) simp
  then have cmem: "(''clear'', 0, ci, cj) \<in> set S" by simp
  have cuniq: "\<forall>n i j. (''clear'', n, i, j) \<in> set S \<longrightarrow> n = 0 \<and> i = ci \<and> j = cj"
    using wf_clear_unique[OF assms cmem] by blast
  have set'': "set ms = {(''move'', Some n, ci, cj, k, l) | n k l.
                       1 \<le> k \<and> k \<le> 3 \<and> 1 \<le> l \<and> l \<le> 3 \<and> \<bar>k - ci\<bar> + \<bar>l - cj\<bar> = 1 \<and>
                       (''on'', n, k, l) \<in> set S}"
  proof (intro equalityI subsetI)
    fix m assume "m \<in> set ms"
    then obtain k l where m: "m = (''move'', get_number S k l, ci, cj, k, l)"
      and kl: "1 \<le> k \<and> k \<le> 3 \<and> 1 \<le> l \<and> l \<le> 3 \<and> \<bar>k - ci\<bar> + \<bar>l - cj\<bar> = 1"
      unfolding set' by blast
    obtain n where "get_number S k l = Some n" "(''on'', n, k, l) \<in> set S"
      using tiles kl by blast
    then show "m \<in> {(''move'', Some n, ci, cj, k, l) | n k l.
                       1 \<le> k \<and> k \<le> 3 \<and> 1 \<le> l \<and> l \<le> 3 \<and> \<bar>k - ci\<bar> + \<bar>l - cj\<bar> = 1 \<and>
                       (''on'', n, k, l) \<in> set S}"
      using m kl by blast
  next
    fix m assume "m \<in> {(''move'', Some n, ci, cj, k, l) | n k l.
                       1 \<le> k \<and> k \<le> 3 \<and> 1 \<le> l \<and> l \<le> 3 \<and> \<bar>k - ci\<bar> + \<bar>l - cj\<bar> = 1 \<and>
                       (''on'', n, k, l) \<in> set S}"
    then obtain n k l where m: "m = (''move'', Some n, ci, cj, k, l)"
      and kl: "1 \<le> k \<and> k \<le> 3 \<and> 1 \<le> l \<and> l \<le> 3 \<and> \<bar>k - ci\<bar> + \<bar>l - cj\<bar> = 1"
      and mem: "(''on'', n, k, l) \<in> set S"
      by blast
    obtain n' where n': "get_number S k l = Some n'"
      and f: "filter (\<lambda>s. snd (snd s) = (k, l)) S = [(''on'', n', k, l)]"
      using cell[OF kl] by (elim exE conjE)
    have "(''on'', n, k, l) \<in> set (filter (\<lambda>s. snd (snd s) = (k, l)) S)" using mem by simp
    then have "n = n'" by (simp only: f) simp
    then have "m = (''move'', get_number S k l, ci, cj, k, l)" using m n' by simp
    then show "m \<in> set ms" unfolding set' using kl by blast
  qed
  have l2: "2 \<le> length ms" and l4: "length ms \<le> 4"
    using len' by (simp_all split: if_splits)
  from g ms len' l2 l4 set' tiles cmem cuniq set'' show ?thesis
    by - (rule exI[of _ ci], rule exI[of _ cj], rule exI[of _ ms], (intro conjI; assumption))
qed

theorem get_possible_moves_well_formed_witness:
  "well_formed the_goal \<and>
   (\<exists>ci cj ms. get_clear the_goal = Some (ci, cj) \<and> get_possible_moves the_goal = Inr ms \<and> distinct ms \<and>
           length ms = (if (ci = 1 \<or> ci = 3) \<and> (cj = 1 \<or> cj = 3) then 2
                        else if ci = 2 \<and> cj = 2 then 4 else 3) \<and>
           2 \<le> length ms \<and> length ms \<le> 4 \<and>
           set ms = {(''move'', get_number the_goal k l, ci, cj, k, l) | k l.
                       1 \<le> k \<and> k \<le> 3 \<and> 1 \<le> l \<and> l \<le> 3 \<and> \<bar>k - ci\<bar> + \<bar>l - cj\<bar> = 1} \<and>
           (\<forall>k l. 1 \<le> k \<and> k \<le> 3 \<and> 1 \<le> l \<and> l \<le> 3 \<and> \<bar>k - ci\<bar> + \<bar>l - cj\<bar> = 1 \<longrightarrow>
                  (\<exists>n. get_number the_goal k l = Some n \<and> 1 \<le> n \<and> n \<le> 8 \<and>
                       (''on'', n, k, l) \<in> set the_goal)) \<and>
           (''clear'', 0, ci, cj) \<in> set the_goal \<and>
           (\<forall>n i j. (''clear'', n, i, j) \<in> set the_goal \<longrightarrow> n = 0 \<and> i = ci \<and> j = cj) \<and>
           set ms = {(''move'', Some n, ci, cj, k, l) | n k l.
                       1 \<le> k \<and> k \<le> 3 \<and> 1 \<le> l \<and> l \<le> 3 \<and> \<bar>k - ci\<bar> + \<bar>l - cj\<bar> = 1 \<and>
                       (''on'', n, k, l) \<in> set the_goal})"
  using well_formed_the_goal get_possible_moves_well_formed[OF well_formed_the_goal] by (rule conjI)

text \<open>
  C3. For a well-formed current state and a move of the operator table, the
  regression step removes every fact on the move's from-cell or to-cell and adds the
  two precondition facts. When the add-list facts of the move are both in the current
  state, as they are for every move that \<open>get_possible_moves\<close> returns for it, the result
  is the state minus the add-list, united with the preconditions.
\<close>

theorem update_current_state_regression:
  assumes wf: "well_formed (current_state p)"
    and ops: "operators p = operators_table"
    and op: "operators_table (tag, t, i, j, k, l) = Some op"
  shows "\<exists>cs' x. t = Some x \<and> update_current_state p (tag, t, i, j, k, l) = Inr cs' \<and>
           preconditions op = [(''on'', x, i, j), (''clear'', 0, k, l)] \<and>
           add op = [(''on'', x, k, l), (''clear'', 0, i, j)] \<and>
           set cs' = {s \<in> set (current_state p). snd (snd s) \<noteq> (i, j) \<and> snd (snd s) \<noteq> (k, l)}
                       \<union> {(''on'', x, i, j), (''clear'', 0, k, l)} \<and>
           (set (add op) \<subseteq> set (current_state p) \<longrightarrow>
              set cs' = (set (current_state p) - set (add op)) \<union> set (preconditions op)) \<and>
           (\<forall>ms. get_possible_moves (current_state p) = Inr ms \<and> (tag, t, i, j, k, l) \<in> set ms \<longrightarrow>
              set (add op) \<subseteq> set (current_state p))"
proof -
  let ?m = "(tag, t, i, j, k, l)"
  let ?S = "current_state p"
  obtain x where t: "t = Some x" and op_eq: "op = operator_of x i j k l"
    using operators_table_dom[OF op] by auto
  have d: "distinct ?S" using wf by (simp add: well_formed_def)
  obtain cs' where u: "update_current_state p ?m = Inr cs'"
    and s: "set cs' = {s \<in> set ?S. \<not> touches s ?m} \<union> set (preconditions op)"
    using update_current_state_set[OF d, of ?m op] op ops by auto
  have pre: "preconditions op = [(''on'', x, i, j), (''clear'', 0, k, l)]"
    and ad: "add op = [(''on'', x, k, l), (''clear'', 0, i, j)]"
    by (simp_all add: op_eq operator_of_def)
  have s1: "set cs' = {s \<in> set ?S. snd (snd s) \<noteq> (i, j) \<and> snd (snd s) \<noteq> (k, l)}
                       \<union> {(''on'', x, i, j), (''clear'', 0, k, l)}"
    unfolding s pre by (auto simp: touches_iff)
  have s2: "set (add op) \<subseteq> set ?S \<longrightarrow> set cs' = (set ?S - set (add op)) \<union> set (preconditions op)"
  proof
    assume "set (add op) \<subseteq> set ?S"
    then have "(''clear'', 0, i, j) \<in> set ?S" "(''on'', x, k, l) \<in> set ?S"
      by (simp_all add: ad)
    then have "{s \<in> set ?S. \<not> touches s ?m} = set ?S - {(''on'', x, k, l), (''clear'', 0, i, j)}"
      by (rule regress_classical[OF wf])
    then show "set cs' = (set ?S - set (add op)) \<union> set (preconditions op)"
      unfolding s by (simp add: ad)
  qed
  have s3: "\<forall>ms. get_possible_moves ?S = Inr ms \<and> ?m \<in> set ms \<longrightarrow> set (add op) \<subseteq> set ?S"
  proof (intro allI impI)
    fix ms assume h: "get_possible_moves ?S = Inr ms \<and> ?m \<in> set ms"
    then have h1: "get_possible_moves ?S = Inr ms" and h2: "?m \<in> set ms" by simp_all
    obtain n ci cj k' l' where m_eq: "?m = (''move'', Some n, ci, cj, k', l')"
      and fa': "filter (\<lambda>s. snd (snd s) = (ci, cj)) ?S = [(''clear'', 0, ci, cj)]"
      and fb': "filter (\<lambda>s. snd (snd s) = (k', l')) ?S = [(''on'', n, k', l')]"
      using candidate_structure[OF wf h1 h2] by (elim exE conjE)
    have n: "t = Some n" and e: "ci = i" "cj = j" "k' = k" "l' = l" using m_eq by simp_all
    have fa: "filter (\<lambda>s. snd (snd s) = (i, j)) ?S = [(''clear'', 0, i, j)]"
      using fa' by (simp only: e)
    have fb: "filter (\<lambda>s. snd (snd s) = (k, l)) ?S = [(''on'', n, k, l)]"
      using fb' by (simp only: e)
    have "(''clear'', 0, i, j) \<in> set (filter (\<lambda>s. snd (snd s) = (i, j)) ?S)" by (simp only: fa) simp
    moreover have "(''on'', n, k, l) \<in> set (filter (\<lambda>s. snd (snd s) = (k, l)) ?S)" by (simp only: fb) simp
    ultimately show "set (add op) \<subseteq> set ?S" using n t by (simp add: ad)
  qed
  from t u pre ad s1 s2 s3 show ?thesis
    by - (rule exI[of _ cs'], rule exI[of _ x], (intro conjI; assumption))
qed

theorem update_current_state_regression_counterexample:
  "well_formed (current_state (Strips_init one_away 5)) \<and>
   operators (Strips_init one_away 5) (''move'', Some 1, 1, 1, 1, 2) = Some (operator_of 1 1 1 1 2) \<and>
   update_current_state (Strips_init one_away 5) (''move'', Some 1, 1, 1, 1, 2) =
     Inr [(''on'', 3, 1, 3), (''on'', 8, 2, 1), (''clear'', 0, 2, 2), (''on'', 4, 2, 3),
          (''on'', 7, 3, 1), (''on'', 6, 3, 2), (''on'', 5, 3, 3), (''on'', 1, 1, 1), (''clear'', 0, 1, 2)] \<and>
   set [(''on'', 3, 1, 3), (''on'', 8, 2, 1), (''clear'', 0, 2, 2), (''on'', 4, 2, 3),
        (''on'', 7, 3, 1), (''on'', 6, 3, 2), (''on'', 5, 3, 3), (''on'', 1, 1, 1), (''clear'', 0, 1, 2)]
     \<noteq> (set (current_state (Strips_init one_away 5)) - set (add (operator_of 1 1 1 1 2)))
          \<union> set (preconditions (operator_of 1 1 1 1 2))"
proof -
  have 1: "well_formed (current_state (Strips_init one_away 5))"
    using well_formed_the_goal by (simp add: Strips_init_def)
  have 2: "operators (Strips_init one_away 5) (''move'', Some 1, 1, 1, 1, 2) = Some (operator_of 1 1 1 1 2)"
    by (simp add: Strips_init_def operators_table_Some adjacent_def)
  have in_r: "(''on'', 2, 1, 2) \<in> (set (current_state (Strips_init one_away 5)) - set (add (operator_of 1 1 1 1 2)))
          \<union> set (preconditions (operator_of 1 1 1 1 2))"
    by (simp add: Strips_init_def the_goal_def operator_of_def)
  have not_l: "(''on'', 2, 1, 2) \<notin> set [(''on'', 3, 1, 3), (''on'', 8, 2, 1), (''clear'', 0, 2, 2), (''on'', 4, 2, 3),
        (''on'', 7, 3, 1), (''on'', 6, 3, 2), (''on'', 5, 3, 3), (''on'', 1, 1, 1), (''clear'', 0::int, 1::int, 2::int)]"
    by simp
  have 4: "set [(''on'', 3, 1, 3), (''on'', 8, 2, 1), (''clear'', 0, 2, 2), (''on'', 4, 2, 3),
        (''on'', 7, 3, 1), (''on'', 6, 3, 2), (''on'', 5, 3, 3), (''on'', 1, 1, 1), (''clear'', 0, 1, 2)]
     \<noteq> (set (current_state (Strips_init one_away 5)) - set (add (operator_of 1 1 1 1 2)))
          \<union> set (preconditions (operator_of 1 1 1 1 2))"
  proof
    assume eq: "set [(''on'', 3, 1, 3), (''on'', 8, 2, 1), (''clear'', 0, 2, 2), (''on'', 4, 2, 3),
        (''on'', 7, 3, 1), (''on'', 6, 3, 2), (''on'', 5, 3, 3), (''on'', 1, 1, 1), (''clear'', 0, 1, 2)]
     = (set (current_state (Strips_init one_away 5)) - set (add (operator_of 1 1 1 1 2)))
          \<union> set (preconditions (operator_of 1 1 1 1 2))"
    show False using in_r not_l unfolding eq[symmetric] by (rule notE[rotated])
  qed
  from 1 2 update_goal_far 4 show ?thesis by (intro conjI)
qed

theorem update_current_state_regression_witness:
  "well_formed (current_state (Strips_init one_away 5)) \<and>
   operators (Strips_init one_away 5) = operators_table \<and>
   operators_table (''move'', Some 4, 2, 2, 2, 3) = Some (operator_of 4 2 2 2 3) \<and>
   (\<exists>cs' x. Some 4 = Some x \<and>
      update_current_state (Strips_init one_away 5) (''move'', Some 4, 2, 2, 2, 3) = Inr cs' \<and>
      preconditions (operator_of 4 2 2 2 3) = [(''on'', x, 2, 2), (''clear'', 0, 2, 3)] \<and>
      add (operator_of 4 2 2 2 3) = [(''on'', x, 2, 3), (''clear'', 0, 2, 2)] \<and>
      set cs' = {s \<in> set (current_state (Strips_init one_away 5)).
                   snd (snd s) \<noteq> (2, 2) \<and> snd (snd s) \<noteq> (2, 3)}
                  \<union> {(''on'', x, 2, 2), (''clear'', 0, 2, 3)} \<and>
      set (add (operator_of 4 2 2 2 3)) \<subseteq> set (current_state (Strips_init one_away 5)) \<and>
      set cs' = (set (current_state (Strips_init one_away 5)) - set (add (operator_of 4 2 2 2 3)))
                  \<union> set (preconditions (operator_of 4 2 2 2 3)))"
proof -
  let ?p = "Strips_init one_away 5"
  have 1: "well_formed (current_state ?p)"
    using well_formed_the_goal by (simp add: Strips_init_def)
  have 2: "operators ?p = operators_table" by (simp add: Strips_init_def)
  have 3: "operators_table (''move'', Some 4, 2, 2, 2, 3) = Some (operator_of 4 2 2 2 3)"
    by (simp add: operators_table_Some adjacent_def)
  have 4: "set (add (operator_of 4 2 2 2 3)) \<subseteq> set (current_state ?p)"
    by (simp add: operator_of_def Strips_init_def the_goal_def)
  obtain cs' x where x: "Some (4::int) = Some x"
    and u: "update_current_state ?p (''move'', Some 4, 2, 2, 2, 3) = Inr cs'"
    and pre: "preconditions (operator_of 4 2 2 2 3) = [(''on'', x, 2, 2), (''clear'', 0, 2, 3)]"
    and ad: "add (operator_of 4 2 2 2 3) = [(''on'', x, 2, 3), (''clear'', 0, 2, 2)]"
    and s1: "set cs' = {s \<in> set (current_state ?p). snd (snd s) \<noteq> (2, 2) \<and> snd (snd s) \<noteq> (2, 3)}
                  \<union> {(''on'', x, 2, 2), (''clear'', 0, 2, 3)}"
    and s2: "set (add (operator_of 4 2 2 2 3)) \<subseteq> set (current_state ?p) \<longrightarrow>
      set cs' = (set (current_state ?p) - set (add (operator_of 4 2 2 2 3)))
                  \<union> set (preconditions (operator_of 4 2 2 2 3))"
    using update_current_state_regression[OF 1 2 3] by (elim exE conjE)
  have s2': "set cs' = (set (current_state ?p) - set (add (operator_of 4 2 2 2 3)))
                  \<union> set (preconditions (operator_of 4 2 2 2 3))"
    using s2 4 by (rule mp)
  have ex: "\<exists>cs' x. Some 4 = Some x \<and>
      update_current_state ?p (''move'', Some 4, 2, 2, 2, 3) = Inr cs' \<and>
      preconditions (operator_of 4 2 2 2 3) = [(''on'', x, 2, 2), (''clear'', 0, 2, 3)] \<and>
      add (operator_of 4 2 2 2 3) = [(''on'', x, 2, 3), (''clear'', 0, 2, 2)] \<and>
      set cs' = {s \<in> set (current_state ?p). snd (snd s) \<noteq> (2, 2) \<and> snd (snd s) \<noteq> (2, 3)}
                  \<union> {(''on'', x, 2, 2), (''clear'', 0, 2, 3)} \<and>
      set (add (operator_of 4 2 2 2 3)) \<subseteq> set (current_state ?p) \<and>
      set cs' = (set (current_state ?p) - set (add (operator_of 4 2 2 2 3)))
                  \<union> set (preconditions (operator_of 4 2 2 2 3))"
    using x u pre ad s1 4 s2'
    by - (rule exI[of _ cs'], rule exI[of _ x], (intro conjI; assumption))
  from 1 2 3 ex show ?thesis by (intro conjI)
qed

text \<open>
  C6. For a non-empty set of candidate moves, all keys of the operator table, and
  for every outcome \<open>r\<close> of the random draw, \<open>pick_move\<close> returns a candidate whose
  score is maximal among the candidates; the score of a move is the number of its
  precondition facts that are in the initial state, which is 0, 1 or 2.
\<close>

theorem pick_move_maximal:
  assumes ne: "ms \<noteq> []"
    and keys: "set ms \<subseteq> dom operators_table"
    and ops: "operators p = operators_table"
  shows "\<exists>m op. pick_move p ms r = Inr m \<and> m \<in> set ms \<and> operators_table m = Some op \<and>
           move_pts p m = Inr (int (card (set (preconditions op) \<inter> set (initial_state p)))) \<and>
           card (set (preconditions op) \<inter> set (initial_state p)) \<le> 2 \<and>
           (\<forall>m' \<in> set ms. \<forall>op'. operators_table m' = Some op' \<longrightarrow>
              card (set (preconditions op') \<inter> set (initial_state p))
                \<le> card (set (preconditions op) \<inter> set (initial_state p)))"
proof -
  have pts: "\<forall>m \<in> set ms. \<exists>q. move_pts p m = Inr q \<and> 0 \<le> q"
  proof
    fix m assume "m \<in> set ms"
    then obtain op where "operators_table m = Some op" using keys by auto
    then have "move_pts p m = Inr (int (card (set (preconditions op) \<inter> set (initial_state p))))"
      using move_pts_table[OF ops] by blast
    then show "\<exists>q. move_pts p m = Inr q \<and> 0 \<le> q" by simp
  qed
  obtain m q where pm: "pick_move p ms r = Inr m" and mem: "m \<in> set ms"
    and q: "move_pts p m = Inr q"
    and mx: "\<forall>m' \<in> set ms. \<forall>q'. move_pts p m' = Inr q' \<longrightarrow> q' \<le> q"
    using pick_move_max[OF ne pts, of r] by (elim exE conjE)
  obtain op where op: "operators_table m = Some op" using keys mem by auto
  have sc: "move_pts p m = Inr (int (card (set (preconditions op) \<inter> set (initial_state p))))"
    and le2: "card (set (preconditions op) \<inter> set (initial_state p)) \<le> 2"
    using move_pts_table[OF ops op] by simp_all
  have qv: "q = int (card (set (preconditions op) \<inter> set (initial_state p)))"
    using q sc by simp
  have all: "\<forall>m' \<in> set ms. \<forall>op'. operators_table m' = Some op' \<longrightarrow>
              card (set (preconditions op') \<inter> set (initial_state p))
                \<le> card (set (preconditions op) \<inter> set (initial_state p))"
  proof (intro ballI allI impI)
    fix m' op' assume m': "m' \<in> set ms" and op': "operators_table m' = Some op'"
    have "move_pts p m' = Inr (int (card (set (preconditions op') \<inter> set (initial_state p))))"
      using move_pts_table[OF ops op'] by simp
    then have "int (card (set (preconditions op') \<inter> set (initial_state p))) \<le> q"
      using mx m' by blast
    then show "card (set (preconditions op') \<inter> set (initial_state p))
                \<le> card (set (preconditions op) \<inter> set (initial_state p))"
      unfolding qv by simp
  qed
  from pm mem op sc le2 all show ?thesis
    by - (rule exI[of _ m], rule exI[of _ op], (intro conjI; assumption))
qed

theorem pick_move_maximal_witness:
  "[(''move'', Some 2, 2, 2, 1, 2), (''move'', Some (4::int), 2::int, 2::int, 2::int, 3::int)] \<noteq> [] \<and>
   set [(''move'', Some 2, 2, 2, 1, 2), (''move'', Some 4, 2, 2, 2, 3)] \<subseteq> dom operators_table \<and>
   operators (Strips_init one_away 5) = operators_table \<and>
   (\<exists>m op. pick_move (Strips_init one_away 5)
              [(''move'', Some 2, 2, 2, 1, 2), (''move'', Some 4, 2, 2, 2, 3)] 7 = Inr m \<and>
      m \<in> set [(''move'', Some 2, 2, 2, 1, 2), (''move'', Some 4, 2, 2, 2, 3)] \<and>
      operators_table m = Some op \<and>
      move_pts (Strips_init one_away 5) m =
        Inr (int (card (set (preconditions op) \<inter> set (initial_state (Strips_init one_away 5))))) \<and>
      card (set (preconditions op) \<inter> set (initial_state (Strips_init one_away 5))) \<le> 2 \<and>
      (\<forall>m' \<in> set [(''move'', Some 2, 2, 2, 1, 2), (''move'', Some 4, 2, 2, 2, 3)].
         \<forall>op'. operators_table m' = Some op' \<longrightarrow>
           card (set (preconditions op') \<inter> set (initial_state (Strips_init one_away 5)))
             \<le> card (set (preconditions op) \<inter> set (initial_state (Strips_init one_away 5)))))"
proof -
  let ?ms = "[(''move'', Some 2, 2, 2, 1, 2), (''move'', Some (4::int), 2::int, 2::int, 2::int, 3::int)]"
  have 1: "?ms \<noteq> []" by simp
  have a: "operators_table (''move'', Some 2, 2, 2, 1, 2) = Some (operator_of 2 2 2 1 2)"
    by (simp add: operators_table_Some adjacent_def)
  have b: "operators_table (''move'', Some 4, 2, 2, 2, 3) = Some (operator_of 4 2 2 2 3)"
    by (simp add: operators_table_Some adjacent_def)
  have 2: "set ?ms \<subseteq> dom operators_table" using a b by (simp add: dom_def)
  have 3: "operators (Strips_init one_away 5) = operators_table" by (simp add: Strips_init_def)
  from 1 2 3 pick_move_maximal[OF 1 2 3, of 7] show ?thesis by (intro conjI)
qed

text \<open>
  C9. A call of \<open>run\<close> changes only the current state of the planner: the initial state,
  the goal state, the operator table and the time budget are those at entry. The current
  state is not reset at entry: the planner left by the call, successful or timed out, is
  the planner at entry with the regression steps of the moves chosen in the call applied
  in order (the returned list on a time-out, its reverse on success), so the next call
  starts from there.
\<close>

theorem run_frame:
  assumes "run p clock rnd = Some (Inr (b, ops, p'))"
  shows "initial_state p' = initial_state p \<and> goal_state p' = goal_state p \<and>
         operators p' = operators p \<and> max_elaps_time p' = max_elaps_time p \<and>
         p' = p\<lparr>current_state := current_state p'\<rparr> \<and>
         regress_moves p (if b then rev ops else ops) = Inr p'"
proof -
  have "run_loop clock rnd (clock 0) 0 p [] = Some (Inr (b, ops, p'))"
    using assms by (simp add: run_def)
  from run_loop_trace[OF this, rule_format, OF refl] obtain new where
    o: "ops = (if b then rev ([] @ new) else [] @ new)" and r: "regress_moves p new = Inr p'"
    by (elim exE conjE)
  have "(if b then rev ops else ops) = new" using o by simp
  then have r': "regress_moves p (if b then rev ops else ops) = Inr p'" using r by simp
  show ?thesis
    using regress_moves_fields[OF r] regress_moves_frame[OF r] r' by (intro conjI) simp_all
qed

theorem run_frame_witness:
  "run (Strips_init one_away 5) (\<lambda>k. real k * 10) (\<lambda>k. 0) =
     Some (Inr (False, [(''move'', Some 4, 2, 2, 2, 3)],
       ((Strips_init one_away 5)\<lparr>current_state :=
          [(''on'', 1, 1, 1), (''on'', 2, 1, 2), (''on'', 3, 1, 3),
           (''on'', 8, 2, 1), (''on'', 7, 3, 1), (''on'', 6, 3, 2),
           (''on'', 5, 3, 3), (''on'', 4, 2, 2), (''clear'', 0, 2, 3)]\<rparr>))) \<and>
   (initial_state ((Strips_init one_away 5)\<lparr>current_state :=
          [(''on'', 1, 1, 1), (''on'', 2, 1, 2), (''on'', 3, 1, 3),
           (''on'', 8, 2, 1), (''on'', 7, 3, 1), (''on'', 6, 3, 2),
           (''on'', 5, 3, 3), (''on'', 4, 2, 2), (''clear'', 0, 2, 3)]\<rparr>) = initial_state (Strips_init one_away 5) \<and>
    goal_state ((Strips_init one_away 5)\<lparr>current_state :=
          [(''on'', 1, 1, 1), (''on'', 2, 1, 2), (''on'', 3, 1, 3),
           (''on'', 8, 2, 1), (''on'', 7, 3, 1), (''on'', 6, 3, 2),
           (''on'', 5, 3, 3), (''on'', 4, 2, 2), (''clear'', 0, 2, 3)]\<rparr>) = goal_state (Strips_init one_away 5) \<and>
    operators ((Strips_init one_away 5)\<lparr>current_state :=
          [(''on'', 1, 1, 1), (''on'', 2, 1, 2), (''on'', 3, 1, 3),
           (''on'', 8, 2, 1), (''on'', 7, 3, 1), (''on'', 6, 3, 2),
           (''on'', 5, 3, 3), (''on'', 4, 2, 2), (''clear'', 0, 2, 3)]\<rparr>) = operators (Strips_init one_away 5) \<and>
    max_elaps_time ((Strips_init one_away 5)\<lparr>current_state :=
          [(''on'', 1, 1, 1), (''on'', 2, 1, 2), (''on'', 3, 1, 3),
           (''on'', 8, 2, 1), (''on'', 7, 3, 1), (''on'', 6, 3, 2),
           (''on'', 5, 3, 3), (''on'', 4, 2, 2), (''clear'', 0, 2, 3)]\<rparr>) = max_elaps_time (Strips_init one_away 5) \<and>
    ((Strips_init one_away 5)\<lparr>current_state :=
          [(''on'', 1, 1, 1), (''on'', 2, 1, 2), (''on'', 3, 1, 3),
           (''on'', 8, 2, 1), (''on'', 7, 3, 1), (''on'', 6, 3, 2),
           (''on'', 5, 3, 3), (''on'', 4, 2, 2), (''clear'', 0, 2, 3)]\<rparr>) = (Strips_init one_away 5)\<lparr>current_state := current_state ((Strips_init one_away 5)\<lparr>current_state :=
          [(''on'', 1, 1, 1), (''on'', 2, 1, 2), (''on'', 3, 1, 3),
           (''on'', 8, 2, 1), (''on'', 7, 3, 1), (''on'', 6, 3, 2),
           (''on'', 5, 3, 3), (''on'', 4, 2, 2), (''clear'', 0, 2, 3)]\<rparr>)\<rparr> \<and>
    regress_moves (Strips_init one_away 5) (if False then rev [(''move'', Some 4, 2, 2, 2, 3)] else [(''move'', Some 4, 2, 2, 2, 3)]) =
      Inr ((Strips_init one_away 5)\<lparr>current_state :=
          [(''on'', 1, 1, 1), (''on'', 2, 1, 2), (''on'', 3, 1, 3),
           (''on'', 8, 2, 1), (''on'', 7, 3, 1), (''on'', 6, 3, 2),
           (''on'', 5, 3, 3), (''on'', 4, 2, 2), (''clear'', 0, 2, 3)]\<rparr>))"
  using run_one_away_late[of "\<lambda>k. 0"] run_frame[OF run_one_away_late[of "\<lambda>k. 0"]]
  by (rule conjI)

text \<open>
  C1. When the time budget is exhausted, \<open>run\<close> returns \<open>False\<close> together with the moves
  accumulated during the call, not with an empty list: on the board
  \<open>1 2 3 / 8 4 _ / 7 6 5\<close> with budget 5 and a first iteration that ends 10 seconds after
  the start, the result is \<open>(False, [(''move'', 4, 2, 2, 2, 3)])\<close>.
\<close>

theorem run_timeout_returns_moves:
  "run (Strips_init one_away 5) (\<lambda>k. real k * 10) (\<lambda>k. 0) =
     Some (Inr (False, [(''move'', Some 4, 2, 2, 2, 3)],
       (Strips_init one_away 5)\<lparr>current_state :=
          [(''on'', 1, 1, 1), (''on'', 2, 1, 2), (''on'', 3, 1, 3),
           (''on'', 8, 2, 1), (''on'', 7, 3, 1), (''on'', 6, 3, 2),
           (''on'', 5, 3, 3), (''on'', 4, 2, 2), (''clear'', 0, 2, 3)]\<rparr>))"
  by (rule run_one_away_late)

text \<open>
  C7. For the initial state \<open>1 2 3 / 8 4 _ / 7 6 5\<close> and a budget that the first iteration
  does not exceed, \<open>run\<close> on a fresh planner returns success with exactly one move, for
  every random source: tile 4 from cell (2,2) to cell (2,3).
\<close>

theorem run_one_move:
  assumes "clock 1 - clock 0 \<le> budget"
  shows "run (Strips_init one_away budget) clock rnd =
     Some (Inr (True, [(''move'', Some 4, 2, 2, 2, 3)],
       (Strips_init one_away budget)\<lparr>current_state :=
          [(''on'', 1, 1, 1), (''on'', 2, 1, 2), (''on'', 3, 1, 3),
           (''on'', 8, 2, 1), (''on'', 7, 3, 1), (''on'', 6, 3, 2),
           (''on'', 5, 3, 3), (''on'', 4, 2, 2), (''clear'', 0, 2, 3)]\<rparr>))"
  using assms by (rule run_one_away_budget)

theorem run_one_move_counterexample:
  "map_option (map_sum id (\<lambda>(b, ops, p). (b, ops))) (run (Strips_init one_away 5) (\<lambda>k. 0) (\<lambda>k. 0))
     \<noteq> Some (Inr (True, [(''move'', Some 4, 2, 3, 2, 2)]))"
  by (simp add: run_one_away_in_time)

theorem run_one_move_witness:
  "(\<lambda>k::nat. 0::real) 1 - (\<lambda>k::nat. 0::real) 0 \<le> 5 \<and>
   run (Strips_init one_away 5) (\<lambda>k. 0) (\<lambda>k. 0) =
     Some (Inr (True, [(''move'', Some 4, 2, 2, 2, 3)],
       (Strips_init one_away 5)\<lparr>current_state :=
          [(''on'', 1, 1, 1), (''on'', 2, 1, 2), (''on'', 3, 1, 3),
           (''on'', 8, 2, 1), (''on'', 7, 3, 1), (''on'', 6, 3, 2),
           (''on'', 5, 3, 3), (''on'', 4, 2, 2), (''clear'', 0, 2, 3)]\<rparr>))"
proof -
  have h: "(\<lambda>k::nat. 0::real) 1 - (\<lambda>k::nat. 0::real) 0 \<le> 5" by simp
  show ?thesis using h run_one_move[OF h, of "\<lambda>k. 0"] by (rule conjI)
qed

text \<open>
  C8. When the fact set of the initial state is that of the goal state, \<open>run\<close> on a fresh
  planner returns success with an empty list of operations and leaves the planner as it
  was: no regression step is made.
\<close>

theorem run_initial_is_goal:
  assumes "set init = set the_goal"
  shows "run (Strips_init init budget) clock rnd = Some (Inr (True, [], Strips_init init budget))"
  using assms by (rule run_at_goal)

theorem run_initial_is_goal_witness:
  "set (rev the_goal) = set the_goal \<and>
   run (Strips_init (rev the_goal) 5) (\<lambda>k. real k) (\<lambda>k. 0) =
     Some (Inr (True, [], Strips_init (rev the_goal) 5))"
proof -
  have h: "set (rev the_goal) = set the_goal" by simp
  show ?thesis using h run_initial_is_goal[OF h] by (rule conjI)
qed

text \<open>
  C2. For a well-formed initial state and a freshly constructed planner, when \<open>run\<close>
  returns success the returned operations can be applied forward in order from the
  initial state, each move with its preconditions satisfied (tile \<open>t\<close> on \<open>(i, j)\<close>, blank
  on \<open>(k, l)\<close>), deleting them and adding tile \<open>t\<close> on \<open>(k, l)\<close> and the blank on \<open>(i, j)\<close>, and
  the last state is exactly the goal state.
\<close>

theorem run_success_forward_plan:
  assumes wf: "well_formed init"
    and r: "run (Strips_init init budget) clock rnd = Some (Inr (True, plan, p'))"
  shows "apply_plan operators_table (set init) plan = Some (set the_goal)"
proof -
  let ?p = "Strips_init init budget"
  have rl: "run_loop clock rnd (clock 0) 0 ?p [] = Some (Inr (True, plan, p'))"
    using r by (simp add: run_def)
  have wfg: "well_formed (current_state ?p)" and ops: "operators ?p = operators_table"
    and ini: "initial_state ?p = init" and cur: "current_state ?p = the_goal"
    by (rule fresh_planner)+
  note f = run_loop_well_formed[OF rl, rule_format, OF wfg ops, THEN conjunct2, rule_format, OF refl]
  have w: "well_formed (current_state p')" using f by (rule conjunct1)
  have e: "\<not> int (length (intersection (current_state p') (initial_state p'))) < 9"
    using f by (simp only: simp_thms)
  have "\<exists>new. plan = (if True then rev ([] @ new) else [] @ new) \<and>
          apply_plan operators_table (set (current_state p')) (rev new) = Some (set (current_state ?p))"
    using f by (rule conjunct2[THEN conjunct2])
  then obtain new where "plan = rev new"
    and ap: "apply_plan operators_table (set (current_state p')) (rev new) = Some (set (current_state ?p))"
    by auto
  then have ap': "apply_plan operators_table (set (current_state p')) plan = Some (set the_goal)"
    using cur by simp
  obtain new' where "regress_moves ?p new' = Inr p'"
    using run_loop_trace[OF rl, rule_format, OF refl] by (elim exE conjE)
  then have "initial_state p' = initial_state ?p" using regress_moves_fields by blast
  then have "initial_state p' = init" using ini by simp
  then have "set (current_state p') = set init"
    using exit_equal[OF w _ e] wf by simp
  then show ?thesis using ap' by simp
qed

theorem run_success_forward_plan_witness:
  "well_formed one_away \<and>
   run (Strips_init one_away 5) (\<lambda>k. 0) (\<lambda>k. 0) =
     Some (Inr (True, [(''move'', Some 4, 2, 2, 2, 3)],
       (Strips_init one_away 5)\<lparr>current_state :=
          [(''on'', 1, 1, 1), (''on'', 2, 1, 2), (''on'', 3, 1, 3),
           (''on'', 8, 2, 1), (''on'', 7, 3, 1), (''on'', 6, 3, 2),
           (''on'', 5, 3, 3), (''on'', 4, 2, 2), (''clear'', 0, 2, 3)]\<rparr>)) \<and>
   apply_plan operators_table (set one_away) [(''move'', Some 4, 2, 2, 2, 3)] = Some (set the_goal)"
  using well_formed_one_away run_one_away_in_time[of "\<lambda>k. 0"]
    run_success_forward_plan[OF well_formed_one_away run_one_away_in_time[of "\<lambda>k. 0"]]
  by (intro conjI)

text \<open>
  C10. For a planner with the precomputed operator table and a well-formed current
  state, \<open>get_possible_moves\<close> returns a non-empty set of moves, each a key of the operator
  table with a tile 1..8 and orthogonally adjacent in-bounds cells, and \<open>pick_move\<close>
  returns a move for every random draw; hence no call of \<open>run\<close> ends in an exception.
\<close>

theorem run_no_lookup_failure:
  assumes wf: "well_formed (current_state p)" and ops: "operators p = operators_table"
  shows "(\<exists>ms. get_possible_moves (current_state p) = Inr ms \<and> ms \<noteq> [] \<and>
            set ms \<subseteq> dom (operators p) \<and>
            (\<forall>m \<in> set ms. \<exists>n i j k l. m = (''move'', Some n, i, j, k, l) \<and> 1 \<le> n \<and> n \<le> 8 \<and>
               1 \<le> i \<and> i \<le> 3 \<and> 1 \<le> j \<and> j \<le> 3 \<and> 1 \<le> k \<and> k \<le> 3 \<and> 1 \<le> l \<and> l \<le> 3 \<and>
               \<bar>k - i\<bar> + \<bar>l - j\<bar> = 1) \<and>
            (\<forall>r. \<exists>m. pick_move p ms r = Inr m \<and> m \<in> set ms)) \<and>
         (\<forall>clock rnd e. run p clock rnd \<noteq> Some (Inl e))"
proof -
  obtain ms where gpm: "get_possible_moves (current_state p) = Inr ms" and ne: "ms \<noteq> []"
    and keys: "set ms \<subseteq> dom operators_table"
    and pick: "\<forall>r. \<exists>m. pick_move p ms r = Inr m \<and> m \<in> set ms"
    using wf_pick_move[OF wf ops] by (elim exE conjE)
  have keys': "set ms \<subseteq> dom (operators p)" using keys ops by simp
  have shape: "\<forall>m \<in> set ms. \<exists>n i j k l. m = (''move'', Some n, i, j, k, l) \<and> 1 \<le> n \<and> n \<le> 8 \<and>
               1 \<le> i \<and> i \<le> 3 \<and> 1 \<le> j \<and> j \<le> 3 \<and> 1 \<le> k \<and> k \<le> 3 \<and> 1 \<le> l \<and> l \<le> 3 \<and>
               \<bar>k - i\<bar> + \<bar>l - j\<bar> = 1"
  proof
    fix m assume "m \<in> set ms"
    then obtain n i j k l where m: "m = (''move'', Some n, i, j, k, l)"
      and n: "1 \<le> n" "n \<le> 8" and c: "1 \<le> i" "i \<le> 3" "1 \<le> j" "j \<le> 3"
      and adj: "adjacent i j k l"
      using candidate_in_table[OF wf gpm] by blast
    have "1 \<le> k \<and> k \<le> 3 \<and> 1 \<le> l \<and> l \<le> 3 \<and> \<bar>k - i\<bar> + \<bar>l - j\<bar> = 1"
      using adj adjacent_iff[OF c] by simp
    then show "\<exists>n i j k l. m = (''move'', Some n, i, j, k, l) \<and> 1 \<le> n \<and> n \<le> 8 \<and>
               1 \<le> i \<and> i \<le> 3 \<and> 1 \<le> j \<and> j \<le> 3 \<and> 1 \<le> k \<and> k \<le> 3 \<and> 1 \<le> l \<and> l \<le> 3 \<and>
               \<bar>k - i\<bar> + \<bar>l - j\<bar> = 1"
      using m n c by blast
  qed
  have first: "\<exists>ms. get_possible_moves (current_state p) = Inr ms \<and> ms \<noteq> [] \<and>
            set ms \<subseteq> dom (operators p) \<and>
            (\<forall>m \<in> set ms. \<exists>n i j k l. m = (''move'', Some n, i, j, k, l) \<and> 1 \<le> n \<and> n \<le> 8 \<and>
               1 \<le> i \<and> i \<le> 3 \<and> 1 \<le> j \<and> j \<le> 3 \<and> 1 \<le> k \<and> k \<le> 3 \<and> 1 \<le> l \<and> l \<le> 3 \<and>
               \<bar>k - i\<bar> + \<bar>l - j\<bar> = 1) \<and>
            (\<forall>r. \<exists>m. pick_move p ms r = Inr m \<and> m \<in> set ms)"
    using gpm ne keys' shape pick by - (rule exI[of _ ms], (intro conjI; assumption))
  have second: "\<forall>clock rnd e. run p clock rnd \<noteq> Some (Inl e)"
  proof (intro allI notI)
    fix clock rnd e assume "run p clock rnd = Some (Inl e)"
    then have rl: "run_loop clock rnd (clock 0) 0 p [] = Some (Inl e)" by (simp add: run_def)
    have "\<forall>e'. Inl e \<noteq> (Inl e' :: error + bool \<times> move list \<times> strips)"
      using run_loop_well_formed[OF rl, rule_format, OF wf ops] by (rule conjunct1)
    then show False by blast
  qed
  from first second show ?thesis by (rule conjI)
qed

theorem run_no_lookup_failure_witness:
  "well_formed (current_state (Strips_init one_away 5)) \<and>
   operators (Strips_init one_away 5) = operators_table \<and>
   ((\<exists>ms. get_possible_moves (current_state (Strips_init one_away 5)) = Inr ms \<and> ms \<noteq> [] \<and>
            set ms \<subseteq> dom (operators (Strips_init one_away 5)) \<and>
            (\<forall>m \<in> set ms. \<exists>n i j k l. m = (''move'', Some n, i, j, k, l) \<and> 1 \<le> n \<and> n \<le> 8 \<and>
               1 \<le> i \<and> i \<le> 3 \<and> 1 \<le> j \<and> j \<le> 3 \<and> 1 \<le> k \<and> k \<le> 3 \<and> 1 \<le> l \<and> l \<le> 3 \<and>
               \<bar>k - i\<bar> + \<bar>l - j\<bar> = 1) \<and>
            (\<forall>r. \<exists>m. pick_move (Strips_init one_away 5) ms r = Inr m \<and> m \<in> set ms)) \<and>
    (\<forall>clock rnd e. run (Strips_init one_away 5) clock rnd \<noteq> Some (Inl e)))"
proof -
  have 1: "well_formed (current_state (Strips_init one_away 5))"
    and 2: "operators (Strips_init one_away 5) = operators_table"
    by (rule fresh_planner)+
  show ?thesis by (rule conjI[OF 1 conjI[OF 2 run_no_lookup_failure[OF 1 2]]])
qed

end
